theory Spec2Isabelle
  imports Main
begin

section \<open>Machine integers\<close>

text \<open>
  The engine works on \<open>i32\<close>, \<open>i64\<close>, \<open>u64\<close> and \<open>size_t\<close> values. They are
  modelled as \<open>int\<close> (indices into vectors as \<open>nat\<close>), and the conversions that can
  change a value are written out.
\<close>

definition to_i32 :: "int \<Rightarrow> int" where
  "to_i32 x = (x + 2 ^ 31) mod 2 ^ 32 - 2 ^ 31"

definition to_u64 :: "int \<Rightarrow> int" where
  "to_u64 x = x mod 2 ^ 64"

definition in_i32 :: "int \<Rightarrow> bool" where
  "in_i32 x = (- (2 ^ 31) \<le> x \<and> x < 2 ^ 31)"

section \<open>Work structs\<close>

record Interval =
  interval_start :: int
  interval_end :: int

record VideoMetadata =
  frames :: int
  width :: int
  height :: int
  keyframe_positions :: "int list"
  keyframe_byte_offsets :: "int list"

datatype error = AssertionFailed | OutOfRange | Fatal

section \<open>Load worker: the keyframe bracket\<close>

text \<open>
  The first loop of \<open>find_keyframe_indices\<close>: from \<open>i\<close> on, the first index whose
  keyframe position is greater than \<open>start_frame\<close>, minus one. \<open>None\<close> is the value
  \<open>std::numeric_limits<size_t>::max()\<close> the variable keeps when the loop finds nothing.
\<close>

function scan_start :: "int \<Rightarrow> int list \<Rightarrow> nat \<Rightarrow> nat option" where
  "scan_start start_frame kps i =
     (if i < length kps
      then (if kps ! i > start_frame then Some (i - 1)
            else scan_start start_frame kps (Suc i))
      else None)"
  by pat_completeness auto
termination
  by (relation "measure (\<lambda>(s, kps, i). length kps - i)") auto

declare scan_start.simps [simp del]

text \<open>
  The second loop: from \<open>i\<close> on, the first index whose keyframe position is at least
  \<open>end_frame\<close>; \<open>0\<close>, the initial value of \<open>end_keyframe_index\<close>, when there is none.
\<close>

function scan_end :: "int \<Rightarrow> int list \<Rightarrow> nat \<Rightarrow> nat" where
  "scan_end end_frame kps i =
     (if i < length kps
      then (if kps ! i \<ge> end_frame then i
            else scan_end end_frame kps (Suc i))
      else 0)"
  by pat_completeness auto
termination
  by (relation "measure (\<lambda>(e, kps, i). length kps - i)") auto

declare scan_end.simps [simp del]

definition find_keyframe_indices :: "int \<Rightarrow> int \<Rightarrow> int list \<Rightarrow> error + (nat \<times> nat)" where
  "find_keyframe_indices start_frame end_frame kps =
     (case scan_start start_frame kps 1 of
        None \<Rightarrow> Inl AssertionFailed
      | Some start_keyframe_index \<Rightarrow>
          (let end_keyframe_index = scan_end end_frame kps start_keyframe_index
           in if end_keyframe_index = 0 then Inl AssertionFailed
              else Inr (start_keyframe_index, end_keyframe_index)))"

text \<open>
  What \<open>load_video_thread\<close> does for one interval: the bracket, the two byte offsets
  converted to \<open>u64\<close>, the size of the buffer and the read at \<open>pos\<close>, and the two
  keyframe positions stored in the decode arguments. An index outside the byte offset
  vector is an \<open>OutOfRange\<close> error.
\<close>

record IntervalRead =
  read_pos :: int
  read_size :: int
  start_keyframe :: int
  end_keyframe :: int

definition load_interval :: "int list \<Rightarrow> int list \<Rightarrow> Interval \<Rightarrow> error + IntervalRead" where
  "load_interval kps offs iv =
     (case find_keyframe_indices (interval_start iv) (interval_end iv) kps of
        Inl e \<Rightarrow> Inl e
      | Inr (start_keyframe_index, end_keyframe_index) \<Rightarrow>
          if start_keyframe_index < length offs \<and> end_keyframe_index < length offs
          then (let start_keyframe_byte_offset = to_u64 (offs ! start_keyframe_index);
                    end_keyframe_byte_offset = to_u64 (offs ! end_keyframe_index);
                    buffer_size = to_u64 (end_keyframe_byte_offset - start_keyframe_byte_offset)
                in Inr \<lparr>read_pos = start_keyframe_byte_offset,
                        read_size = buffer_size,
                        start_keyframe = kps ! start_keyframe_index,
                        end_keyframe = kps ! end_keyframe_index\<rparr>)
          else Inl OutOfRange)"

section \<open>Work planner\<close>

text \<open>
  The planner of \<open>run_job\<close> appends to two vectors, \<open>work_items\<close> and
  \<open>load_work_items\<close>; the pair of them is the state its loops pass on. The payload
  fields of a load entry that a sampling mode does not set are left as the default
  constructor leaves them: no interval, empty vectors.

  The counters of the planner are \<open>i32\<close> values. In the loop over one video, with a
  positive work item size, \<open>allocated_frames + frames_to_allocate\<close> never exceeds the
  frame count, itself an \<open>i32\<close>, so the sums are written without wrap-around; with a work item size of zero or
  less the \<open>while\<close> loop does not end, which is the value \<open>None\<close>. The vectors are taken to
  hold fewer than \<open>2^31\<close> elements, so that \<open>work_items.size() - 1\<close> and the index of a
  video fit the \<open>i32\<close> fields they are stored in.
\<close>

record VideoWorkItem =
  video_index :: int
  item_id :: int
  next_item_id :: int
  rows_from_start :: int

record LoadWorkEntry =
  work_item_index :: int
  interval :: "Interval option"
  strided :: "(Interval \<times> int) option"
  gather_points :: "int list"
  gather_sequences :: "Interval list"

type_synonym plan = "VideoWorkItem list \<times> LoadWorkEntry list"

definition new_load_entry :: "int \<Rightarrow> LoadWorkEntry" where
  "new_load_entry idx =
     \<lparr>work_item_index = idx, interval = None, strided = None,
      gather_points = [], gather_sequences = []\<rparr>"

partial_function (option) plan_all_video :: "int \<Rightarrow> int \<Rightarrow> int \<Rightarrow> int \<Rightarrow> plan \<Rightarrow> plan option" where
  "plan_all_video work_item_size i nframes allocated_frames p =
     (if allocated_frames < nframes
      then (let frames_to_allocate = min work_item_size (nframes - allocated_frames);
                item = \<lparr>video_index = i, item_id = allocated_frames,
                        next_item_id = allocated_frames + frames_to_allocate,
                        rows_from_start = allocated_frames\<rparr>;
                work_items = fst p @ [item];
                load_item = (new_load_entry (int (length work_items) - 1))
                   \<lparr>interval := Some \<lparr>interval_start = allocated_frames,
                                       interval_end = allocated_frames + frames_to_allocate\<rparr>\<rparr>
            in plan_all_video work_item_size i nframes (allocated_frames + frames_to_allocate)
                 (work_items, snd p @ [load_item]))
      else Some p)"

declare plan_all_video.simps [code]

text \<open>
  The loop over the videos of the dataset, \<open>i\<close> the index of the next one.
\<close>

fun plan_all :: "int \<Rightarrow> VideoMetadata list \<Rightarrow> nat \<Rightarrow> plan \<Rightarrow> plan option" where
  "plan_all work_item_size [] i p = Some p"
| "plan_all work_item_size (meta # rest) i p =
     (case plan_all_video work_item_size (int i) (frames meta) 0 p of
        None \<Rightarrow> None
      | Some p' \<Rightarrow> plan_all work_item_size rest (Suc i) p')"

text \<open>
  The work item and the load entry that start at frame \<open>a\<close> of a video of \<open>n\<close>
  frames, as the rule for \<open>All\<close> sampling describes them, and the items of one video.
\<close>

definition all_item :: "int \<Rightarrow> int \<Rightarrow> int \<Rightarrow> int \<Rightarrow> VideoWorkItem" where
  "all_item W i n a = \<lparr>video_index = i, item_id = a, next_item_id = a + min W (n - a),
                        rows_from_start = a\<rparr>"

definition all_load :: "int \<Rightarrow> int \<Rightarrow> int \<Rightarrow> int \<Rightarrow> LoadWorkEntry" where
  "all_load W n a idx = (new_load_entry idx)
     \<lparr>interval := Some \<lparr>interval_start = a, interval_end = a + min W (n - a)\<rparr>\<rparr>"

definition all_block :: "int \<Rightarrow> int \<Rightarrow> int \<Rightarrow> nat \<Rightarrow> VideoWorkItem list \<Rightarrow> LoadWorkEntry list \<Rightarrow> bool" where
  "all_block W i n off ws ls \<longleftrightarrow>
     length ls = length ws \<and>
     (\<forall>k. k < length ws \<longleftrightarrow> int k * W < n) \<and>
     (\<forall>k < length ws. ws ! k = all_item W i n (int k * W) \<and>
                       ls ! k = all_load W n (int k * W) (int (off + k)))"

text \<open>
  A video of \<open>n\<close> frames with a single keyframe, for the examples.
\<close>

definition video_of_frames :: "int \<Rightarrow> VideoMetadata" where
  "video_of_frames n =
     \<lparr>frames = n, width = 1, height = 1, keyframe_positions = [0],
      keyframe_byte_offsets = [0]\<rparr>"

text \<open>
  \<open>SequenceGather\<close> sampling. The inner loop cuts one interval into chunks; it returns
  the running count \<open>total_frames_in_sequences\<close> with the plan. After the loop the
  planner overwrites \<open>next_item_id\<close> of \<open>work_items.back()\<close>; on an empty vector that is
  an \<open>OutOfRange\<close> error.

  The fields of an \<open>Interval\<close> and the counters \<open>frames_in_sample\<close>,
  \<open>allocated_frames\<close>, \<open>frames_to_allocate\<close> and \<open>total_frames_in_sequences\<close> are
  \<open>i32\<close> values. \<open>total_frames_in_sequences\<close> runs over all intervals of a per-video
  sequence and is bounded by nothing, so every sum and difference of the loop is written
  with its wrap-around to 32 bits. \<open>item_id\<close> and \<open>next_item_id\<close> are \<open>i64\<close> fields:
  they take the \<open>i32\<close> values as they are.
\<close>

record SequenceSamples =
  samples_video_index :: int
  samples_intervals :: "Interval list"

partial_function (option) plan_sequence_chunks ::
    "int \<Rightarrow> int \<Rightarrow> Interval \<Rightarrow> int \<Rightarrow> int \<Rightarrow> int \<Rightarrow> plan \<Rightarrow> (int \<times> plan) option" where
  "plan_sequence_chunks work_item_size vi iv frames_in_sample allocated_frames
       total_frames_in_sequences p =
     (if allocated_frames < frames_in_sample
      then (let frames_to_allocate =
                  min work_item_size (to_i32 (frames_in_sample - allocated_frames));
                item = \<lparr>video_index = vi, item_id = total_frames_in_sequences,
                        next_item_id = to_i32 (total_frames_in_sequences + frames_to_allocate),
                        rows_from_start = allocated_frames\<rparr>;
                work_items = fst p @ [item];
                load_item = (new_load_entry (int (length work_items) - 1))
                   \<lparr>gather_sequences :=
                      [\<lparr>interval_start = to_i32 (interval_start iv + allocated_frames),
                        interval_end =
                          to_i32 (to_i32 (interval_start iv + allocated_frames) +
                                  frames_to_allocate)\<rparr>]\<rparr>
            in plan_sequence_chunks work_item_size vi iv frames_in_sample
                 (to_i32 (allocated_frames + frames_to_allocate))
                 (to_i32 (total_frames_in_sequences + frames_to_allocate))
                 (work_items, snd p @ [load_item]))
      else Some (total_frames_in_sequences, p))"

declare plan_sequence_chunks.simps [code]

definition reset_after_back :: "VideoWorkItem list \<Rightarrow> error + VideoWorkItem list" where
  "reset_after_back work_items =
     (if work_items = [] then Inl OutOfRange
      else Inr (work_items [length work_items - 1 := (last work_items) \<lparr>next_item_id := - 1\<rparr>]))"

fun plan_sequence_intervals ::
    "int \<Rightarrow> int \<Rightarrow> Interval list \<Rightarrow> int \<Rightarrow> plan \<Rightarrow> (error + plan) option" where
  "plan_sequence_intervals work_item_size vi [] total_frames_in_sequences p = Some (Inr p)"
| "plan_sequence_intervals work_item_size vi (iv # rest) total_frames_in_sequences p =
     (case plan_sequence_chunks work_item_size vi iv
             (to_i32 (interval_end iv - interval_start iv)) 0 total_frames_in_sequences p of
        None \<Rightarrow> None
      | Some (new_total, (work_items, load_work_items)) \<Rightarrow>
          (case reset_after_back work_items of
             Inl e \<Rightarrow> Some (Inl e)
           | Inr work_items' \<Rightarrow>
               plan_sequence_intervals work_item_size vi rest new_total (work_items', load_work_items)))"

fun plan_sequence_gather :: "int \<Rightarrow> SequenceSamples list \<Rightarrow> plan \<Rightarrow> (error + plan) option" where
  "plan_sequence_gather work_item_size [] p = Some (Inr p)"
| "plan_sequence_gather work_item_size (samples # rest) p =
     (case plan_sequence_intervals work_item_size (samples_video_index samples)
             (samples_intervals samples) 0 p of
        None \<Rightarrow> None
      | Some (Inl e) \<Rightarrow> Some (Inl e)
      | Some (Inr p') \<Rightarrow> plan_sequence_gather work_item_size rest p')"

text \<open>
  The items of one interval as the rule for \<open>SequenceGather\<close> describes them: \<open>t\<close> is
  the number of frames of the intervals before it in the same per-video sequence, \<open>n\<close>
  the number of frames of the interval.
\<close>

definition interval_frames :: "Interval \<Rightarrow> int" where
  "interval_frames iv = interval_end iv - interval_start iv"

definition frames_before :: "Interval list \<Rightarrow> nat \<Rightarrow> int" where
  "frames_before ivs j = sum_list (map interval_frames (take j ivs))"

definition seq_item :: "int \<Rightarrow> int \<Rightarrow> int \<Rightarrow> int \<Rightarrow> nat \<Rightarrow> VideoWorkItem" where
  "seq_item W vi t n k =
     \<lparr>video_index = vi, item_id = t + int k * W,
      next_item_id = (if (int k + 1) * W < n then t + (int k + 1) * W else - 1),
      rows_from_start = int k * W\<rparr>"

definition seq_load :: "int \<Rightarrow> Interval \<Rightarrow> nat \<Rightarrow> int \<Rightarrow> LoadWorkEntry" where
  "seq_load W iv k idx = (new_load_entry idx)
     \<lparr>gather_sequences :=
        [\<lparr>interval_start = interval_start iv + int k * W,
          interval_end = interval_start iv + int k * W + min W (interval_frames iv - int k * W)\<rparr>]\<rparr>"

definition seq_block ::
    "int \<Rightarrow> int \<Rightarrow> int \<Rightarrow> Interval \<Rightarrow> nat \<Rightarrow> VideoWorkItem list \<Rightarrow> LoadWorkEntry list \<Rightarrow> bool" where
  "seq_block W vi t iv off ws ls \<longleftrightarrow>
     length ls = length ws \<and>
     (\<forall>k. k < length ws \<longleftrightarrow> int k * W < interval_frames iv) \<and>
     (\<forall>k < length ws. ws ! k = seq_item W vi t (interval_frames iv) k \<and>
                       ls ! k = seq_load W iv k (int (off + k)))"

text \<open>
  The item and the load entry the inner loop appends when it is at \<open>allocated_frames = a\<close>
  and \<open>total_frames_in_sequences = t\<close> in an interval of \<open>n\<close> frames, before
  \<open>next_item_id\<close> of the last one is overwritten, when no sum leaves the 32 bits.
\<close>

definition chunk_item :: "int \<Rightarrow> int \<Rightarrow> int \<Rightarrow> int \<Rightarrow> int \<Rightarrow> VideoWorkItem" where
  "chunk_item W vi n a t =
     \<lparr>video_index = vi, item_id = t, next_item_id = t + min W (n - a), rows_from_start = a\<rparr>"

definition chunk_load :: "int \<Rightarrow> Interval \<Rightarrow> int \<Rightarrow> int \<Rightarrow> int \<Rightarrow> LoadWorkEntry" where
  "chunk_load W iv n a idx = (new_load_entry idx)
     \<lparr>gather_sequences :=
        [\<lparr>interval_start = interval_start iv + a,
          interval_end = interval_start iv + a + min W (n - a)\<rparr>]\<rparr>"

text \<open>
  An interval whose bounds are frame numbers: \<open>0 \<le> start < end\<close>, and \<open>end\<close> is an
  \<open>i32\<close>.
\<close>

definition frame_interval :: "Interval \<Rightarrow> bool" where
  "frame_interval iv \<longleftrightarrow>
     0 \<le> interval_start iv \<and> interval_start iv < interval_end iv \<and> interval_end iv < 2 ^ 31"

text \<open>
  A per-video sequence of such intervals whose lengths add up to an \<open>i32\<close>, the type of
  \<open>total_frames_in_sequences\<close>.
\<close>

definition frame_sequence :: "SequenceSamples \<Rightarrow> bool" where
  "frame_sequence s \<longleftrightarrow>
     (\<forall>iv \<in> set (samples_intervals s). frame_interval iv) \<and>
     sum_list (map interval_frames (samples_intervals s)) < 2 ^ 31"

text \<open>
  Two intervals of one video, of 10 and of 25 frames.
\<close>

definition s4_samples :: "SequenceSamples list" where
  "s4_samples =
     [\<lparr>samples_video_index = 0,
       samples_intervals = [\<lparr>interval_start = 0, interval_end = 10\<rparr>,
                            \<lparr>interval_start = 50, interval_end = 75\<rparr>]\<rparr>]"

section \<open>Evaluator chain worker\<close>

text \<open>
  The worker tracks the video and the \<open>next_item_id\<close> of the entry it processed last, in
  two \<open>int\<close> variables that start at \<open>-1\<close>. \<open>next_item_id\<close> is an \<open>i64\<close> field, so
  storing it narrows it to 32 bits.
\<close>

record tracker =
  last_video_index :: int
  last_next_item_id :: int

definition initial_tracker :: tracker where
  "initial_tracker = \<lparr>last_video_index = - 1, last_next_item_id = - 1\<rparr>"

definition needs_configure :: "VideoWorkItem \<Rightarrow> tracker \<Rightarrow> bool" where
  "needs_configure work_item tr = (\<not> (video_index work_item = last_video_index tr))"

definition needs_reset :: "VideoWorkItem \<Rightarrow> tracker \<Rightarrow> bool" where
  "needs_reset work_item tr =
     (\<not> (video_index work_item = last_video_index tr \<and>
         item_id work_item = last_next_item_id tr))"

definition advance_tracker :: "VideoWorkItem \<Rightarrow> tracker" where
  "advance_tracker work_item =
     \<lparr>last_video_index = video_index work_item,
      last_next_item_id = to_i32 (next_item_id work_item)\<rparr>"

text \<open>
  The values of \<open>needs_reset\<close> a worker computes when it processes the entries of the given
  work items one after the other.
\<close>

fun reset_flags :: "tracker \<Rightarrow> VideoWorkItem list \<Rightarrow> bool list" where
  "reset_flags tr [] = []"
| "reset_flags tr (work_item # rest) =
     needs_reset work_item tr # reset_flags (advance_tracker work_item) rest"

text \<open>
  Buffers. A buffer value carries the device it was allocated on, so that a release on
  another device can be told from a matching one. \<open>delete_buffer\<close> is recorded as the
  triple of its arguments.
\<close>

datatype DeviceType = CPU | GPU

record buffer =
  alloc_type :: DeviceType
  alloc_device :: int
  contents :: "nat list"

type_synonym release = "DeviceType \<times> int \<times> buffer"

definition new_buffer :: "DeviceType \<Rightarrow> int \<Rightarrow> nat \<Rightarrow> buffer" where
  "new_buffer t d nbytes = \<lparr>alloc_type = t, alloc_device = d, contents = replicate nbytes 0\<rparr>"

definition memcpy_buffer :: "buffer \<Rightarrow> buffer \<Rightarrow> nat \<Rightarrow> buffer" where
  "memcpy_buffer dest src nbytes =
     dest \<lparr>contents := take nbytes (contents src) @ drop nbytes (contents dest)\<rparr>"

record EvalWorkEntry =
  entry_work_item_index :: int
  column_names :: "string list"
  buffer_sizes :: "nat list list"
  buffers :: "buffer list list"
  buffer_type :: DeviceType
  buffer_device_id :: int
  video_decode_item :: bool

text \<open>
  An evaluator is its capabilities and configuration (required device, output columns),
  its three operations as functions of its internal state, and that state.
  \<open>evaluate_fn\<close> returns the output columns and their sizes.
\<close>

datatype call = Configure nat | Reset nat

record 's Evaluator =
  device_type :: DeviceType
  device_id :: int
  output_names :: "string list"
  configure_fn :: "VideoMetadata \<Rightarrow> 's \<Rightarrow> 's"
  reset_fn :: "'s \<Rightarrow> 's"
  evaluate_fn :: "'s \<Rightarrow> buffer list list \<Rightarrow> nat list list \<Rightarrow> 's \<times> buffer list list \<times> nat list list"
  state :: 's

text \<open>
  The start of an entry: every evaluator is configured when the video changed and reset
  when the entry does not continue the previous one; then the tracked pair is updated.
\<close>

fun configure_and_reset ::
    "bool \<Rightarrow> bool \<Rightarrow> VideoMetadata \<Rightarrow> nat \<Rightarrow> 's Evaluator list \<Rightarrow> 's Evaluator list \<times> call list" where
  "configure_and_reset nc nr md e [] = ([], [])"
| "configure_and_reset nc nr md e (evaluator # rest) =
     (let configured = (if nc then evaluator \<lparr>state := configure_fn evaluator md (state evaluator)\<rparr>
                        else evaluator);
          was_reset = (if nr then configured \<lparr>state := reset_fn configured (state configured)\<rparr>
                       else configured);
          (rest', calls) = configure_and_reset nc nr md (Suc e) rest
      in (was_reset # rest',
          (if nc then [Configure e] else []) @ (if nr then [Reset e] else []) @ calls))"

definition begin_entry ::
    "VideoMetadata \<Rightarrow> VideoWorkItem \<Rightarrow> tracker \<Rightarrow> 's Evaluator list \<Rightarrow>
       's Evaluator list \<times> call list \<times> tracker" where
  "begin_entry md work_item tr evaluators =
     (let (evaluators', calls) =
            configure_and_reset (needs_configure work_item tr) (needs_reset work_item tr)
              md 0 evaluators
      in (evaluators', calls, advance_tracker work_item))"

text \<open>
  The batched pass. \<open>slice xs lo hi\<close> is the range \<open>begin() + lo\<close> to \<open>begin() + hi\<close> of a
  vector; a range that leaves the vector is an \<open>OutOfRange\<close> error.
\<close>

definition slice :: "'a list \<Rightarrow> int \<Rightarrow> int \<Rightarrow> error + 'a list" where
  "slice xs lo hi =
     (if 0 \<le> lo \<and> lo \<le> hi \<and> hi \<le> int (length xs)
      then Inr (take (nat (hi - lo)) (drop (nat lo) xs))
      else Inl OutOfRange)"

fun slice_columns :: "'a list list \<Rightarrow> int \<Rightarrow> int \<Rightarrow> error + 'a list list" where
  "slice_columns [] lo hi = Inr []"
| "slice_columns (column # rest) lo hi =
     (case slice column lo hi of
        Inl e \<Rightarrow> Inl e
      | Inr part \<Rightarrow>
          (case slice_columns rest lo hi of
             Inl e \<Rightarrow> Inl e
           | Inr parts \<Rightarrow> Inr (part # parts)))"

text \<open>
  Moving the input of an evaluator to its device: every buffer is copied to a new buffer
  there and the original is released on the device it was tagged with.
\<close>

definition copy_to :: "DeviceType \<Rightarrow> int \<Rightarrow> buffer \<Rightarrow> nat \<Rightarrow> buffer" where
  "copy_to t d src nbytes = memcpy_buffer (new_buffer t d nbytes) src nbytes"

fun move_column ::
    "DeviceType \<Rightarrow> int \<Rightarrow> DeviceType \<Rightarrow> int \<Rightarrow> buffer list \<Rightarrow> nat list \<Rightarrow>
       error + (buffer list \<times> release list)" where
  "move_column dt di st si [] sizes = Inr ([], [])"
| "move_column dt di st si (b # bs) [] = Inl OutOfRange"
| "move_column dt di st si (b # bs) (nbytes # sizes) =
     (case move_column dt di st si bs sizes of
        Inl e \<Rightarrow> Inl e
      | Inr (bs', released) \<Rightarrow>
          Inr (copy_to dt di b nbytes # bs', (st, si, b) # released))"

fun move_columns ::
    "DeviceType \<Rightarrow> int \<Rightarrow> DeviceType \<Rightarrow> int \<Rightarrow> buffer list list \<Rightarrow> nat list list \<Rightarrow>
       error + (buffer list list \<times> release list)" where
  "move_columns dt di st si [] sizes = Inr ([], [])"
| "move_columns dt di st si (column # columns) [] = Inl OutOfRange"
| "move_columns dt di st si (column # columns) (column_sizes # sizes) =
     (case move_column dt di st si column column_sizes of
        Inl e \<Rightarrow> Inl e
      | Inr (column', released) \<Rightarrow>
          (case move_columns dt di st si columns sizes of
             Inl e \<Rightarrow> Inl e
           | Inr (columns', released') \<Rightarrow> Inr (column' # columns', released @ released')))"

record stage_io =
  io_names :: "string list"
  io_buffers :: "buffer list list"
  io_sizes :: "nat list list"
  io_type :: DeviceType
  io_device :: int

text \<open>
  The loop over the evaluators of the group: swap output to input, move the input if the
  devices differ, evaluate, validate the number of rows (except for the first evaluator
  of a video decode entry, which sets the batch size), release the inputs.
\<close>

fun run_evaluators ::
    "bool \<Rightarrow> nat \<Rightarrow> 's Evaluator list \<Rightarrow> stage_io \<Rightarrow> int \<Rightarrow>
       error + ('s Evaluator list \<times> stage_io \<times> int \<times> release list)" where
  "run_evaluators decode e [] out batch_size = Inr ([], out, batch_size, [])"
| "run_evaluators decode e (evaluator # rest) out batch_size =
     (case (if io_type out \<noteq> device_type evaluator \<or> io_device out \<noteq> device_id evaluator
            then move_columns (device_type evaluator) (device_id evaluator)
                   (io_type out) (io_device out) (io_buffers out) (io_sizes out)
            else Inr (io_buffers out, [])) of
        Inl err \<Rightarrow> Inl err
      | Inr (input_buffers, moved) \<Rightarrow>
          (case evaluate_fn evaluator (state evaluator) input_buffers (io_sizes out) of
             (state', output_buffers, output_sizes) \<Rightarrow>
               if length output_buffers \<noteq> length output_sizes then Inl Fatal
               else if \<not> (e = 0 \<and> decode) \<and>
                       (\<exists>column \<in> set output_buffers. int (length column) \<noteq> batch_size)
                 then Inl Fatal
               else if \<not> (e = 0 \<and> decode) \<and>
                       (\<exists>column \<in> set output_sizes. int (length column) \<noteq> batch_size)
                 then Inl Fatal
               else if e = 0 \<and> decode \<and> output_sizes = [] then Inl OutOfRange
               else
                 (let batch_size' = (if e = 0 \<and> decode then int (length (output_sizes ! 0))
                                     else batch_size);
                      used = map (\<lambda>b. (device_type evaluator, device_id evaluator, b))
                               (concat input_buffers);
                      out' = \<lparr>io_names = output_names evaluator, io_buffers = output_buffers,
                              io_sizes = output_sizes, io_type = device_type evaluator,
                              io_device = device_id evaluator\<rparr>
                  in case run_evaluators decode (Suc e) rest out' batch_size' of
                       Inl err \<Rightarrow> Inl err
                     | Inr (rest', final, final_batch_size, released) \<Rightarrow>
                         Inr (evaluator \<lparr>state := state'\<rparr> # rest', final, final_batch_size,
                              moved @ used @ released))))"

text \<open>
  Warmup trimming and the move of the kept rows to CPU memory, column by column.
\<close>

definition warmup_frames_of :: "bool \<Rightarrow> bool \<Rightarrow> int \<Rightarrow> int \<Rightarrow> int \<Rightarrow> int \<Rightarrow> int" where
  "warmup_frames_of last_group reset warmup rows current_input batch_size =
     (if last_group \<and> reset
      then (let total_warmup_frames = min warmup rows
            in min batch_size (max 0 (total_warmup_frames - current_input)))
      else 0)"

function delete_warmup ::
    "DeviceType \<Rightarrow> int \<Rightarrow> buffer list \<Rightarrow> int \<Rightarrow> int \<Rightarrow> error + release list" where
  "delete_warmup t d column w warmup_frames =
     (if w < warmup_frames
      then (if 0 \<le> w \<and> nat w < length column
            then (case delete_warmup t d column (w + 1) warmup_frames of
                    Inl e \<Rightarrow> Inl e
                  | Inr released \<Rightarrow> Inr ((t, d, column ! nat w) # released))
            else Inl OutOfRange)
      else Inr [])"
  by pat_completeness auto
termination
  by (relation "measure (\<lambda>(t, d, column, w, warmup_frames). nat (warmup_frames - w))") auto

declare delete_warmup.simps [simp del]

function move_to_cpu ::
    "DeviceType \<Rightarrow> int \<Rightarrow> buffer list \<Rightarrow> nat list \<Rightarrow> int \<Rightarrow> int \<Rightarrow>
       error + (buffer list \<times> release list)" where
  "move_to_cpu t d column sizes f batch_size =
     (if f < batch_size
      then (if 0 \<le> f \<and> nat f < length column \<and> nat f < length sizes
            then (let nbytes = sizes ! nat f;
                      src_buffer = column ! nat f;
                      dest_buffer = copy_to CPU 0 src_buffer nbytes
                  in case move_to_cpu t d (column [nat f := dest_buffer]) sizes (f + 1) batch_size of
                       Inl e \<Rightarrow> Inl e
                     | Inr (column', released) \<Rightarrow> Inr (column', (t, d, src_buffer) # released))
            else Inl OutOfRange)
      else Inr (column, []))"
  by pat_completeness auto
termination
  by (relation "measure (\<lambda>(t, d, column, sizes, f, batch_size). nat (batch_size - f))") auto

declare move_to_cpu.simps [simp del]

definition keep_from :: "'a list \<Rightarrow> int \<Rightarrow> error + 'a list" where
  "keep_from column warmup_frames =
     (if 0 \<le> warmup_frames \<and> warmup_frames \<le> int (length column)
      then Inr (drop (nat warmup_frames) column)
      else Inl OutOfRange)"

record kept_column =
  discarded :: "release list"
  migrated :: "release list"
  kept_sizes :: "nat list"
  kept_buffers :: "buffer list"

definition trim_column ::
    "DeviceType \<Rightarrow> int \<Rightarrow> DeviceType \<Rightarrow> int \<Rightarrow> int \<Rightarrow> int \<Rightarrow> buffer list \<Rightarrow> nat list \<Rightarrow>
       error + kept_column" where
  "trim_column last_type last_id out_type out_id warmup_frames batch_size column sizes =
     (if length sizes \<noteq> length column then Inl AssertionFailed
      else case delete_warmup last_type last_id column 0 warmup_frames of
        Inl e \<Rightarrow> Inl e
      | Inr deleted \<Rightarrow>
          (case (if out_type \<noteq> CPU
                 then move_to_cpu out_type out_id column sizes warmup_frames batch_size
                 else Inr (column, [])) of
             Inl e \<Rightarrow> Inl e
           | Inr (column', moved) \<Rightarrow>
               (case keep_from sizes warmup_frames of
                  Inl e \<Rightarrow> Inl e
                | Inr ks \<Rightarrow>
                    (case keep_from column' warmup_frames of
                       Inl e \<Rightarrow> Inl e
                     | Inr kb \<Rightarrow>
                         Inr \<lparr>discarded = deleted, migrated = moved,
                              kept_sizes = ks, kept_buffers = kb\<rparr>))))"

function trim_columns ::
    "DeviceType \<Rightarrow> int \<Rightarrow> stage_io \<Rightarrow> int \<Rightarrow> int \<Rightarrow> nat \<Rightarrow> nat \<Rightarrow> error + kept_column list" where
  "trim_columns last_type last_id out warmup_frames batch_size i last_evaluator_num_columns =
     (if i < last_evaluator_num_columns
      then (if i < length (io_buffers out) \<and> i < length (io_sizes out)
            then (case trim_column last_type last_id (io_type out) (io_device out)
                         warmup_frames batch_size (io_buffers out ! i) (io_sizes out ! i) of
                    Inl e \<Rightarrow> Inl e
                  | Inr kept \<Rightarrow>
                      (case trim_columns last_type last_id out warmup_frames batch_size (Suc i)
                              last_evaluator_num_columns of
                         Inl e \<Rightarrow> Inl e
                       | Inr rest \<Rightarrow> Inr (kept # rest)))
            else Inl OutOfRange)
      else Inr [])"
  by pat_completeness auto
termination
  by (relation "measure (\<lambda>(lt, li, out, w, b, i, n). n - i)") auto

declare trim_columns.simps [simp del]

record EvaluateThreadArgs =
  WORK_ITEM_SIZE :: int
  warmup_count :: int
  metadata :: "VideoMetadata list"
  work_items :: "VideoWorkItem list"
  last_evaluator_group :: bool

record EvaluateThreadLocals =
  last_evaluator_num_columns :: nat
  last_evaluator_device_id :: int
  last_evaluator_device_type :: DeviceType

definition thread_locals :: "'s Evaluator list \<Rightarrow> EvaluateThreadLocals" where
  "thread_locals evs =
     \<lparr>last_evaluator_num_columns = length (output_names (last evs)),
      last_evaluator_device_id = device_id (last evs),
      last_evaluator_device_type = device_type (last evs)\<rparr>"

record batch_result =
  batch_rows :: int
  batch_kept :: "kept_column list"
  batch_released :: "release list"

definition evaluate_batch ::
    "EvaluateThreadArgs \<Rightarrow> EvaluateThreadLocals \<Rightarrow> VideoWorkItem \<Rightarrow> bool \<Rightarrow> EvalWorkEntry \<Rightarrow>
       's Evaluator list \<Rightarrow> int \<Rightarrow> int \<Rightarrow> error + ('s Evaluator list \<times> batch_result)" where
  "evaluate_batch args locals work_item reset work_entry evs current_input total_inputs =
     (let batch_size = min total_inputs (WORK_ITEM_SIZE args)
      in case slice_columns (buffers work_entry) current_input (current_input + batch_size) of
           Inl e \<Rightarrow> Inl e
         | Inr output_buffers \<Rightarrow>
        (case slice_columns (buffer_sizes work_entry) current_input (current_input + batch_size) of
           Inl e \<Rightarrow> Inl e
         | Inr output_sizes \<Rightarrow>
        (case run_evaluators (video_decode_item work_entry) 0 evs
                \<lparr>io_names = column_names work_entry, io_buffers = output_buffers,
                 io_sizes = output_sizes, io_type = buffer_type work_entry,
                 io_device = buffer_device_id work_entry\<rparr> batch_size of
           Inl e \<Rightarrow> Inl e
         | Inr (evs', out, batch_size', released) \<Rightarrow>
             (let warmup_frames =
                    warmup_frames_of (last_evaluator_group args) reset (warmup_count args)
                      (rows_from_start work_item) current_input batch_size'
              in case trim_columns (last_evaluator_device_type locals)
                        (last_evaluator_device_id locals) out warmup_frames batch_size' 0
                        (last_evaluator_num_columns locals) of
                   Inl e \<Rightarrow> Inl e
                 | Inr kept \<Rightarrow>
                     Inr (evs', \<lparr>batch_rows = batch_size', batch_kept = kept,
                                 batch_released = released\<rparr>)))))"

definition append_kept :: "EvalWorkEntry \<Rightarrow> kept_column list \<Rightarrow> EvalWorkEntry" where
  "append_kept output_work_entry kept =
     output_work_entry
       \<lparr>buffer_sizes := map2 (\<lambda>column k. column @ kept_sizes k) (buffer_sizes output_work_entry) kept,
        buffers := map2 (\<lambda>column k. column @ kept_buffers k) (buffers output_work_entry) kept\<rparr>"

definition releases_of :: "batch_result \<Rightarrow> release list" where
  "releases_of r =
     batch_released r @ concat (map (\<lambda>k. discarded k @ migrated k) (batch_kept r))"

partial_function (option) evaluate_batches ::
    "EvaluateThreadArgs \<Rightarrow> EvaluateThreadLocals \<Rightarrow> VideoWorkItem \<Rightarrow> bool \<Rightarrow> EvalWorkEntry \<Rightarrow> int \<Rightarrow>
       's Evaluator list \<Rightarrow> int \<Rightarrow> EvalWorkEntry \<Rightarrow> release list \<Rightarrow>
       (error + ('s Evaluator list \<times> EvalWorkEntry \<times> release list)) option" where
  "evaluate_batches args locals work_item reset work_entry total_inputs evs current_input
       output_work_entry released =
     (if current_input < total_inputs
      then (case evaluate_batch args locals work_item reset work_entry evs current_input
                   total_inputs of
              Inl e \<Rightarrow> Some (Inl e)
            | Inr (evs', r) \<Rightarrow>
                evaluate_batches args locals work_item reset work_entry total_inputs evs'
                  (current_input + batch_rows r) (append_kept output_work_entry (batch_kept r))
                  (released @ releases_of r))
      else Some (Inr (evs, output_work_entry, released)))"

declare evaluate_batches.simps [code]

record 's worker =
  worker_evaluators :: "'s Evaluator list"
  worker_tracker :: tracker

record 's entry_result =
  next_worker :: "'s worker"
  pushed :: EvalWorkEntry
  entry_calls :: "call list"
  entry_released :: "release list"

definition evaluate_entry ::
    "EvaluateThreadArgs \<Rightarrow> EvaluateThreadLocals \<Rightarrow> 's worker \<Rightarrow> EvalWorkEntry \<Rightarrow>
       (error + 's entry_result) option" where
  "evaluate_entry args locals w work_entry =
     (let idx = entry_work_item_index work_entry
      in if \<not> (0 \<le> idx \<and> nat idx < length (work_items args)) then Some (Inl OutOfRange)
         else
           (let work_item = work_items args ! nat idx
            in if \<not> (0 \<le> video_index work_item \<and>
                       nat (video_index work_item) < length (metadata args))
               then Some (Inl OutOfRange)
               else
                 (let md = metadata args ! nat (video_index work_item);
                      reset = needs_reset work_item (worker_tracker w);
                      (evs, calls, tr) =
                         begin_entry md work_item (worker_tracker w) (worker_evaluators w);
                      output_work_entry =
                        \<lparr>entry_work_item_index = idx, column_names = [],
                         buffer_sizes = replicate (last_evaluator_num_columns locals) [],
                         buffers = replicate (last_evaluator_num_columns locals) [],
                         buffer_type = CPU, buffer_device_id = 0, video_decode_item = False\<rparr>;
                      total_inputs = (if buffers work_entry = [] then 0
                                      else int (length (buffers work_entry ! 0)))
                  in case evaluate_batches args locals work_item reset work_entry total_inputs
                            evs 0 output_work_entry [] of
                       None \<Rightarrow> None
                     | Some (Inl e) \<Rightarrow> Some (Inl e)
                     | Some (Inr (evs', out, released)) \<Rightarrow>
                         Some (Inr \<lparr>next_worker = \<lparr>worker_evaluators = evs', worker_tracker = tr\<rparr>,
                                    pushed = out, entry_calls = calls,
                                    entry_released = released\<rparr>))))"

fun evaluate_entries ::
    "EvaluateThreadArgs \<Rightarrow> EvaluateThreadLocals \<Rightarrow> 's worker \<Rightarrow> EvalWorkEntry list \<Rightarrow>
       (error + 's entry_result list) option" where
  "evaluate_entries args locals w [] = None"
| "evaluate_entries args locals w (work_entry # rest) =
     (if entry_work_item_index work_entry = - 1 then Some (Inr [])
      else case evaluate_entry args locals w work_entry of
             None \<Rightarrow> None
           | Some (Inl e) \<Rightarrow> Some (Inl e)
           | Some (Inr r) \<Rightarrow>
               (case evaluate_entries args locals (next_worker r) rest of
                  None \<Rightarrow> None
                | Some (Inl e) \<Rightarrow> Some (Inl e)
                | Some (Inr rs) \<Rightarrow> Some (Inr (r # rs))))"

definition evaluate_thread ::
    "EvaluateThreadArgs \<Rightarrow> 's Evaluator list \<Rightarrow> EvalWorkEntry list \<Rightarrow>
       (error + 's entry_result list) option" where
  "evaluate_thread args evs input_work =
     (if evs = [] then Some (Inl AssertionFailed)
      else evaluate_entries args (thread_locals evs)
             \<lparr>worker_evaluators = evs, worker_tracker = initial_tracker\<rparr> input_work)"

text \<open>
  What the worker relies on from an evaluator: the output buffers are allocated on the
  evaluator's device, and all output columns (buffers and sizes) have the same number of
  rows. And what the save worker relies on from an entry.
\<close>

definition evaluator_contract :: "'s Evaluator \<Rightarrow> bool" where
  "evaluator_contract ev \<longleftrightarrow>
     (\<forall>s input_buffers input_sizes.
        case evaluate_fn ev s input_buffers input_sizes of
          (s', output_buffers, output_sizes) \<Rightarrow>
            (\<forall>column \<in> set output_buffers. \<forall>b \<in> set column. alloc_type b = device_type ev) \<and>
            (\<forall>column \<in> set output_buffers. \<forall>sizes \<in> set output_sizes.
               length column = length sizes))"

definition cpu_entry :: "EvalWorkEntry \<Rightarrow> bool" where
  "cpu_entry e \<longleftrightarrow>
     buffer_type e = CPU \<and> buffer_device_id e = 0 \<and>
     (\<forall>column \<in> set (buffers e). \<forall>b \<in> set column. alloc_type b = CPU)"

section \<open>Save worker\<close>

text \<open>
  The buffers the save worker releases for one entry, after the checks on the lengths of
  the columns: every row of every output column, always with \<open>DeviceType::CPU\<close>.
\<close>

function save_columns :: "nat \<Rightarrow> EvalWorkEntry \<Rightarrow> nat \<Rightarrow> nat \<Rightarrow> error + release list" where
  "save_columns num_frames work_entry out_idx num_outputs =
     (if out_idx < num_outputs
      then (if \<not> (out_idx < length (buffer_sizes work_entry) \<and> out_idx < length (buffers work_entry))
            then Inl OutOfRange
            else if length (buffer_sizes work_entry ! out_idx) \<noteq> num_frames then Inl Fatal
            else if length (buffers work_entry ! out_idx) \<noteq> num_frames then Inl Fatal
            else (case save_columns num_frames work_entry (Suc out_idx) num_outputs of
                    Inl e \<Rightarrow> Inl e
                  | Inr released \<Rightarrow>
                      Inr (map (\<lambda>i. (CPU, buffer_device_id work_entry,
                                      buffers work_entry ! out_idx ! i)) [0..<num_frames]
                           @ released)))
      else Inr [])"
  by pat_completeness auto
termination
  by (relation "measure (\<lambda>(n, w, i, m). m - i)") auto

declare save_columns.simps [simp del]

definition save_entry :: "string list \<Rightarrow> EvalWorkEntry \<Rightarrow> error + release list" where
  "save_entry names work_entry =
     (let num_frames = (if buffers work_entry = [] then 0 else length (buffers work_entry ! 0))
      in save_columns num_frames work_entry 0 (length names))"

section \<open>Example inputs\<close>

definition frame_buffer :: "nat \<Rightarrow> buffer" where
  "frame_buffer n = \<lparr>alloc_type = CPU, alloc_device = 0, contents = [n]\<rparr>"

definition copy_evaluator :: "DeviceType \<Rightarrow> int \<Rightarrow> unit Evaluator" where
  "copy_evaluator t d =
     \<lparr>device_type = t, device_id = d, output_names = [''frame''],
      configure_fn = (\<lambda>md s. s), reset_fn = (\<lambda>s. s),
      evaluate_fn = (\<lambda>s input_buffers input_sizes.
         (s, [map (\<lambda>b. \<lparr>alloc_type = t, alloc_device = d, contents = contents b\<rparr>)
                 (input_buffers ! 0)],
          [map (\<lambda>b. length (contents b)) (input_buffers ! 0)])),
      state = ()\<rparr>"

definition frames_entry :: "int \<Rightarrow> nat \<Rightarrow> nat \<Rightarrow> EvalWorkEntry" where
  "frames_entry idx lo n =
     \<lparr>entry_work_item_index = idx, column_names = [''frame''],
      buffer_sizes = [replicate n 1], buffers = [map frame_buffer [lo..<lo + n]],
      buffer_type = CPU, buffer_device_id = 0, video_decode_item = False\<rparr>"

definition sentinel :: EvalWorkEntry where
  "sentinel = \<lparr>entry_work_item_index = - 1, column_names = [], buffer_sizes = [], buffers = [],
      buffer_type = CPU, buffer_device_id = 0, video_decode_item = False\<rparr>"

definition s5_args :: EvaluateThreadArgs where
  "s5_args = \<lparr>WORK_ITEM_SIZE = 16, warmup_count = 8, metadata = [video_of_frames 40],
     work_items = fst (the (plan_all 16 [video_of_frames 40] 0 ([], []))),
     last_evaluator_group = True\<rparr>"

definition s5_item :: VideoWorkItem where
  "s5_item = \<lparr>video_index = 0, item_id = 16, next_item_id = 32, rows_from_start = 16\<rparr>"

definition s5_queue :: "EvalWorkEntry list" where
  "s5_queue = [frames_entry 0 0 16, frames_entry 1 16 16, frames_entry 2 32 8, sentinel]"

definition tracker_after :: "VideoWorkItem list \<Rightarrow> tracker" where
  "tracker_after items = fold (\<lambda>work_item tr. advance_tracker work_item) items initial_tracker"

definition pushed_rows :: "'s entry_result \<Rightarrow> nat list list list" where
  "pushed_rows r = map (map contents) (buffers (pushed r))"

definition grown_entry :: EvalWorkEntry where
  "grown_entry = frames_entry 1 8 24"

text \<open>
  Two per-video sequences of the same video: one interval of 30 frames, and the two
  intervals \<open>[100, 110)\<close> and \<open>[200, 210)\<close>. With a work item size of 10 the plan has
  five work items. \<open>shared_video_queue\<close> is the input of a worker that receives the
  entries of the work items 0 and 4, the other three going to another worker.
\<close>

definition shared_video_samples :: "SequenceSamples list" where
  "shared_video_samples =
     [\<lparr>samples_video_index = 0,
       samples_intervals = [\<lparr>interval_start = 0, interval_end = 30\<rparr>]\<rparr>,
      \<lparr>samples_video_index = 0,
       samples_intervals = [\<lparr>interval_start = 100, interval_end = 110\<rparr>,
                            \<lparr>interval_start = 200, interval_end = 210\<rparr>]\<rparr>]"

definition shared_video_args :: EvaluateThreadArgs where
  "shared_video_args = \<lparr>WORK_ITEM_SIZE = 10, warmup_count = 0, metadata = [video_of_frames 300],
     work_items = (case plan_sequence_gather 10 shared_video_samples ([], []) of
                     Some (Inr p) \<Rightarrow> fst p | _ \<Rightarrow> []),
     last_evaluator_group = True\<rparr>"

definition shared_video_queue :: "EvalWorkEntry list" where
  "shared_video_queue = [frames_entry 0 0 10, frames_entry 4 200 10, sentinel]"

section \<open>Job driver and master coordinator\<close>

text \<open>
  The intake loops of \<open>run_job\<close>, on the master and on the other nodes, as a transition
  system. A node has its counters \<open>accepted_items\<close> and \<open>retired_items\<close>, the value
  \<open>local_work\<close> it computed last (narrowed to \<open>i32\<close>), and the work item indices pushed to
  its load queue. The master is at the head of its first loop (\<open>MLoop\<close>), after the
  computation of \<open>local_work\<close> (\<open>MDecided\<close>), in its second loop (\<open>MDrain\<close>) or past it
  (\<open>MExit\<close>); every other node is at the head of its loop, after the computation of
  \<open>local_work\<close>, or has left the loop. \<open>threshold\<close> is the product
  \<open>PUS_PER_NODE * TASKS_IN_QUEUE_PER_PU\<close>, \<open>num_items\<close> the number of planned work items.

  The threads of the cluster interleave: a schedule is a list of events. \<open>MasterStep\<close>
  and \<open>WorkerStep w\<close> let a driver thread run up to its next read of the counters or its
  next blocking receive; \<open>Exchange w\<close> is the request of node \<open>w\<close>, blocked in its receive,
  and the master's reply to it; \<open>Retire k\<close> is a save worker of node \<open>k\<close> (\<open>0\<close> the master)
  incrementing \<open>retired_items\<close>. A step that is not enabled (a blocked receive, a
  thread that has finished) is \<open>None\<close>.
\<close>

record node =
  accepted_items :: int
  retired_items :: int
  local_work :: int
  load_work :: "int list"

datatype master_pc = MLoop | MDecided | MDrain | MExit

datatype worker_pc = WLoop | WDecided | WDone

record peer =
  peer_node :: node
  peer_pc :: worker_pc

record cluster =
  master_node :: node
  master_at :: master_pc
  next_work_item_to_allocate :: int
  workers_done :: int
  peers :: "peer list"
  replies :: "(nat \<times> int) list"

record job =
  threshold :: int
  num_items :: int
  num_nodes :: int

definition new_node :: node where
  "new_node = \<lparr>accepted_items = 0, retired_items = 0, local_work = 0, load_work = []\<rparr>"

definition initial_cluster :: "job \<Rightarrow> cluster" where
  "initial_cluster j =
     \<lparr>master_node = new_node, master_at = MLoop, next_work_item_to_allocate = 0,
      workers_done = 0,
      peers = replicate (nat (num_nodes j - 1)) \<lparr>peer_node = new_node, peer_pc = WLoop\<rparr>,
      replies = []\<rparr>"

definition read_local_work :: "node \<Rightarrow> node" where
  "read_local_work nd = nd \<lparr>local_work := to_i32 (accepted_items nd - retired_items nd)\<rparr>"

definition accept_item :: "int \<Rightarrow> node \<Rightarrow> node" where
  "accept_item idx nd =
     nd \<lparr>load_work := load_work nd @ [idx], accepted_items := accepted_items nd + 1\<rparr>"

definition retire_item :: "node \<Rightarrow> node" where
  "retire_item nd = nd \<lparr>retired_items := retired_items nd + 1\<rparr>"

definition waiting :: "job \<Rightarrow> peer \<Rightarrow> bool" where
  "waiting j p = (peer_pc p = WDecided \<and> local_work (peer_node p) < threshold j)"

definition receive_reply :: "int \<Rightarrow> peer \<Rightarrow> peer" where
  "receive_reply next_item p =
     (if next_item = - 1 then p \<lparr>peer_pc := WDone\<rparr>
      else \<lparr>peer_node = accept_item next_item (peer_node p), peer_pc = WLoop\<rparr>)"

datatype event = MasterStep | WorkerStep nat | Exchange nat | Retire nat

definition master_step :: "job \<Rightarrow> cluster \<Rightarrow> cluster option" where
  "master_step j c =
     (case master_at c of
        MLoop \<Rightarrow>
          if next_work_item_to_allocate c < num_items j
          then Some (c \<lparr>master_node := read_local_work (master_node c), master_at := MDecided\<rparr>)
          else Some (c \<lparr>workers_done := 1, master_at := MDrain\<rparr>)
      | MDecided \<Rightarrow>
          if local_work (master_node c) < threshold j
          then Some (c \<lparr>master_node := accept_item (next_work_item_to_allocate c) (master_node c),
                        next_work_item_to_allocate := next_work_item_to_allocate c + 1,
                        master_at := MLoop\<rparr>)
          else if num_nodes j > 1 then None
          else Some (c \<lparr>master_at := MLoop\<rparr>)
      | MDrain \<Rightarrow>
          if workers_done c < num_nodes j then None
          else Some (c \<lparr>master_at := MExit\<rparr>)
      | MExit \<Rightarrow> None)"

definition exchange :: "job \<Rightarrow> nat \<Rightarrow> cluster \<Rightarrow> cluster option" where
  "exchange j w c =
     (if \<not> (w < length (peers c) \<and> waiting j (peers c ! w)) then None
      else case master_at c of
        MDecided \<Rightarrow>
          if \<not> local_work (master_node c) < threshold j \<and> num_nodes j > 1
          then (let next_item = next_work_item_to_allocate c
                in Some (c \<lparr>next_work_item_to_allocate := next_item + 1,
                            master_at := MLoop,
                            replies := replies c @ [(w, next_item)],
                            peers := (peers c) [w := receive_reply next_item (peers c ! w)]\<rparr>))
          else None
      | MDrain \<Rightarrow>
          if workers_done c < num_nodes j
          then (let next_item = - 1
                in Some (c \<lparr>workers_done := workers_done c + 1,
                            replies := replies c @ [(w, next_item)],
                            peers := (peers c) [w := receive_reply next_item (peers c ! w)]\<rparr>))
          else None
      | _ \<Rightarrow> None)"

definition worker_step :: "job \<Rightarrow> nat \<Rightarrow> cluster \<Rightarrow> cluster option" where
  "worker_step j w c =
     (if \<not> w < length (peers c) then None
      else (let p = peers c ! w
            in case peer_pc p of
                 WLoop \<Rightarrow>
                   Some (c \<lparr>peers := (peers c)
                              [w := \<lparr>peer_node = read_local_work (peer_node p), peer_pc = WDecided\<rparr>]\<rparr>)
               | WDecided \<Rightarrow>
                   if local_work (peer_node p) < threshold j then None
                   else Some (c \<lparr>peers := (peers c) [w := p \<lparr>peer_pc := WLoop\<rparr>]\<rparr>)
               | WDone \<Rightarrow> None))"

definition retire :: "nat \<Rightarrow> cluster \<Rightarrow> cluster option" where
  "retire k c =
     (if k = 0 then Some (c \<lparr>master_node := retire_item (master_node c)\<rparr>)
      else if k - 1 < length (peers c)
      then Some (c \<lparr>peers := (peers c)
                     [k - 1 := (peers c ! (k - 1))
                        \<lparr>peer_node := retire_item (peer_node (peers c ! (k - 1)))\<rparr>]\<rparr>)
      else None)"

fun step :: "job \<Rightarrow> event \<Rightarrow> cluster \<Rightarrow> cluster option" where
  "step j MasterStep c = master_step j c"
| "step j (WorkerStep w) c = worker_step j w c"
| "step j (Exchange w) c = exchange j w c"
| "step j (Retire k) c = retire k c"

fun run :: "job \<Rightarrow> event list \<Rightarrow> cluster \<Rightarrow> cluster option" where
  "run j [] c = Some c"
| "run j (e # es) c = (case step j e c of None \<Rightarrow> None | Some c' \<Rightarrow> run j es c')"

definition nodes :: "cluster \<Rightarrow> node list" where
  "nodes c = master_node c # map peer_node (peers c)"

text \<open>
  The invariants of the intake gate and of the protocol.
\<close>

definition node_ok :: "job \<Rightarrow> node \<Rightarrow> bool" where
  "node_ok j nd \<longleftrightarrow> accepted_items nd - retired_items nd \<le> threshold j"

definition decided_ok :: "job \<Rightarrow> node \<Rightarrow> bool" where
  "decided_ok j nd \<longleftrightarrow>
     (local_work nd < threshold j \<longrightarrow> accepted_items nd - retired_items nd < threshold j)"

definition peer_ok :: "job \<Rightarrow> peer \<Rightarrow> bool" where
  "peer_ok j p \<longleftrightarrow>
     node_ok j (peer_node p) \<and> (peer_pc p = WDecided \<longrightarrow> decided_ok j (peer_node p))"

definition gate_inv :: "job \<Rightarrow> cluster \<Rightarrow> bool" where
  "gate_inv j c \<longleftrightarrow>
     node_ok j (master_node c) \<and>
     (master_at c = MDecided \<longrightarrow> decided_ok j (master_node c)) \<and>
     (\<forall>p \<in> set (peers c). peer_ok j p)"

definition finished :: "peer \<Rightarrow> bool" where
  "finished p = (peer_pc p = WDone)"

definition done_flags :: "cluster \<Rightarrow> bool list" where
  "done_flags c = map finished (peers c)"

definition protocol_inv :: "job \<Rightarrow> cluster \<Rightarrow> bool" where
  "protocol_inv j c \<longleftrightarrow>
     length (done_flags c) = nat (num_nodes j - 1) \<and>
     0 \<le> next_work_item_to_allocate c \<and>
     (master_at c = MDecided \<longrightarrow> next_work_item_to_allocate c < num_items j) \<and>
     (master_at c = MLoop \<or> master_at c = MDecided \<longrightarrow> True \<notin> set (done_flags c)) \<and>
     (master_at c = MDrain \<or> master_at c = MExit \<longrightarrow>
        num_items j \<le> next_work_item_to_allocate c \<and>
        workers_done c = 1 + int (length (filter (\<lambda>b. b) (done_flags c)))) \<and>
     (master_at c = MExit \<longrightarrow> \<not> workers_done c < num_nodes j) \<and>
     (\<forall>w < length (done_flags c). done_flags c ! w \<longleftrightarrow> (w, - 1) \<in> set (replies c))"

definition accepts :: "job \<Rightarrow> node \<Rightarrow> node \<Rightarrow> bool" where
  "accepts j nd nd' \<longleftrightarrow>
     accepted_items nd - retired_items nd < threshold j \<and>
     accepted_items nd' = accepted_items nd + 1 \<and>
     (\<exists>idx. load_work nd' = load_work nd @ [idx])"

text \<open>
  A job of three work items on two nodes, with a threshold of two, and a schedule of it.
\<close>

definition two_node_job :: job where
  "two_node_job = \<lparr>threshold = 2, num_items = 3, num_nodes = 2\<rparr>"

definition two_node_schedule :: "event list" where
  "two_node_schedule =
     [MasterStep, MasterStep, WorkerStep 0, MasterStep, MasterStep, MasterStep, Exchange 0,
      Retire 0, MasterStep, WorkerStep 0, Exchange 0, MasterStep]"

definition two_node_prefix :: "event list" where
  "two_node_prefix = take 6 two_node_schedule"

definition two_node_drained :: "event list" where
  "two_node_drained = butlast two_node_schedule"

section \<open>Narrowing to 32 bits\<close>

lemma to_i32_id: "in_i32 x \<Longrightarrow> to_i32 x = x"
  by (simp add: to_i32_def in_i32_def)

section \<open>Properties of the keyframe bracket\<close>

lemma scan_start_Some:
  "scan_start s kps i = Some k \<Longrightarrow> 0 < i \<Longrightarrow>
     i \<le> Suc k \<and> Suc k < length kps \<and> s < kps ! Suc k \<and> (\<forall>j. i \<le> j \<and> j \<le> k \<longrightarrow> kps ! j \<le> s)"
proof (induction s kps i rule: scan_start.induct)
  case (1 s kps i)
  show ?case
  proof (cases "i < length kps")
    case False
    with "1.prems" show ?thesis by (simp add: scan_start.simps)
  next
    case True
    show ?thesis
    proof (cases "kps ! i > s")
      case hit: True
      with True "1.prems" have "k = i - 1" by (simp add: scan_start.simps)
      with True hit "1.prems" show ?thesis by auto
    next
      case miss: False
      with True "1.prems" have "scan_start s kps (Suc i) = Some k"
        by (simp add: scan_start.simps)
      with "1.IH" True miss have ih: "Suc i \<le> Suc k \<and> Suc k < length kps \<and> s < kps ! Suc k \<and>
           (\<forall>j. Suc i \<le> j \<and> j \<le> k \<longrightarrow> kps ! j \<le> s)" by simp
      have "\<And>j. i \<le> j \<Longrightarrow> j \<le> k \<Longrightarrow> kps ! j \<le> s"
      proof -
        fix j assume "i \<le> j" "j \<le> k"
        then consider "j = i" | "Suc i \<le> j" by linarith
        then show "kps ! j \<le> s" using miss ih \<open>j \<le> k\<close> by cases auto
      qed
      with ih show ?thesis by auto
    qed
  qed
qed

lemma scan_start_found:
  "i \<le> j \<Longrightarrow> j < length kps \<Longrightarrow> s < kps ! j \<Longrightarrow> \<exists>k. scan_start s kps i = Some k"
proof (induction s kps i rule: scan_start.induct)
  case (1 s kps i)
  show ?case
  proof (cases "kps ! i > s")
    case True
    with "1.prems" show ?thesis by (simp add: scan_start.simps)
  next
    case False
    with "1.prems" have "Suc i \<le> j" by (cases "i = j") auto
    with "1.IH" False "1.prems" have "\<exists>k. scan_start s kps (Suc i) = Some k" by simp
    with False "1.prems" show ?thesis by (simp add: scan_start.simps)
  qed
qed

lemma scan_end_least:
  "i \<le> j \<Longrightarrow> j < length kps \<Longrightarrow> e \<le> kps ! j \<Longrightarrow>
     i \<le> scan_end e kps i \<and> scan_end e kps i < length kps \<and> e \<le> kps ! scan_end e kps i \<and>
     (\<forall>m. i \<le> m \<and> m < scan_end e kps i \<longrightarrow> kps ! m < e)"
proof (induction e kps i rule: scan_end.induct)
  case (1 e kps i)
  show ?case
  proof (cases "kps ! i \<ge> e")
    case True
    with "1.prems" show ?thesis by (simp add: scan_end.simps)
  next
    case False
    with "1.prems" have "Suc i \<le> j" by (cases "i = j") auto
    with "1.IH" False "1.prems" have ih: "Suc i \<le> scan_end e kps (Suc i) \<and> scan_end e kps (Suc i) < length kps \<and>
       e \<le> kps ! scan_end e kps (Suc i) \<and> (\<forall>m. Suc i \<le> m \<and> m < scan_end e kps (Suc i) \<longrightarrow> kps ! m < e)"
      by simp
    from False "1.prems" have eq: "scan_end e kps i = scan_end e kps (Suc i)"
      by (simp add: scan_end.simps)
    have "\<And>m. i \<le> m \<Longrightarrow> m < scan_end e kps (Suc i) \<Longrightarrow> kps ! m < e"
    proof -
      fix m assume "i \<le> m" "m < scan_end e kps (Suc i)"
      then consider "m = i" | "Suc i \<le> m" by linarith
      then show "kps ! m < e" using False ih \<open>m < scan_end e kps (Suc i)\<close> by cases auto
    qed
    with ih eq show ?thesis by auto
  qed
qed

lemma to_u64_id: "0 \<le> x \<Longrightarrow> x < 2 ^ 64 \<Longrightarrow> to_u64 x = x"
  by (simp add: to_u64_def)

text \<open>
  Claim C1. Let the keyframe positions be strictly increasing and start at frame \<open>0\<close>, and
  let the byte offsets be as many, strictly increasing and non-negative \<open>i64\<close> values (the
  invariants of the video metadata). For an interval \<open>[s, e)\<close> with \<open>0 \<le> s < e\<close> and a
  keyframe position at or after \<open>e\<close> (the trailing sentinel), the bracket search returns
  \<open>(k1, k2)\<close> where \<open>k1\<close> is the largest index with a position at most \<open>s\<close> and \<open>k2\<close> is
  the smallest index after \<open>k1\<close> with a position at least \<open>e\<close>, and the load worker reads
  exactly the bytes from \<open>byte_offset[k1]\<close> up to \<open>byte_offset[k2]\<close>.
\<close>

theorem keyframe_bracket:
  assumes sorted: "sorted_wrt (<) kps"
    and first: "kps \<noteq> []" "kps ! 0 = 0"
    and iv: "0 \<le> s" "s < e"
    and sentinel: "\<exists>p \<in> set kps. e \<le> p"
    and offs: "length offs = length kps" "sorted_wrt (<) offs"
              "\<forall>b \<in> set offs. 0 \<le> b \<and> b < 2 ^ 63"
  shows "\<exists>k1 k2 r.
           find_keyframe_indices s e kps = Inr (k1, k2) \<and>
           k1 < k2 \<and> k2 < length kps \<and>
           kps ! k1 \<le> s \<and> (\<forall>j < length kps. kps ! j \<le> s \<longrightarrow> j \<le> k1) \<and>
           e \<le> kps ! k2 \<and> (\<forall>j. k1 < j \<and> j < k2 \<longrightarrow> kps ! j < e) \<and>
           load_interval kps offs \<lparr>interval_start = s, interval_end = e\<rparr> = Inr r \<and>
           read_pos r = offs ! k1 \<and> read_pos r + read_size r = offs ! k2"
proof -
  from sentinel obtain j where j: "j < length kps" "e \<le> kps ! j"
    by (auto simp: in_set_conv_nth)
  have "j \<noteq> 0" using j first iv by (cases "j = 0") auto
  then have "1 \<le> j" by simp
  from scan_start_found [OF this j(1)] j(2) iv obtain k1
    where k1: "scan_start s kps 1 = Some k1" by fastforce
  from scan_start_Some [OF k1] have
    next_gt: "Suc k1 < length kps" "s < kps ! Suc k1"
    and below: "\<And>m. 1 \<le> m \<Longrightarrow> m \<le> k1 \<Longrightarrow> kps ! m \<le> s" by auto
  have k1_le: "kps ! k1 \<le> s"
    using below [of k1] first iv by (cases "k1 = 0") auto
  have largest: "\<And>m. m < length kps \<Longrightarrow> kps ! m \<le> s \<Longrightarrow> m \<le> k1"
  proof (rule ccontr)
    fix m assume m: "m < length kps" "kps ! m \<le> s" "\<not> m \<le> k1"
    then have "Suc k1 = m \<or> Suc k1 < m" by linarith
    then have "kps ! Suc k1 \<le> kps ! m"
      using sorted_wrt_nth_less [OF sorted, of "Suc k1" m] m(1) by auto
    with next_gt m show False by simp
  qed
  have "k1 \<le> j"
  proof (rule ccontr)
    assume "\<not> k1 \<le> j"
    then have "kps ! j < kps ! k1"
      using sorted_wrt_nth_less [OF sorted, of j k1] next_gt by simp
    with k1_le j iv show False by simp
  qed
  define k2 where "k2 = scan_end e kps k1"
  from scan_end_least [OF \<open>k1 \<le> j\<close> j] have
    k2: "k1 \<le> k2" "k2 < length kps" "e \<le> kps ! k2"
    and between: "\<And>m. k1 \<le> m \<Longrightarrow> m < k2 \<Longrightarrow> kps ! m < e"
    by (auto simp: k2_def)
  have "k1 \<noteq> k2" using k1_le k2(3) iv by auto
  with k2 have lt: "k1 < k2" by simp
  then have "k2 \<noteq> 0" by simp
  have fki: "find_keyframe_indices s e kps = Inr (k1, k2)"
    using k1 \<open>k2 \<noteq> 0\<close> by (simp add: find_keyframe_indices_def k2_def Let_def)
  have in1: "k1 < length offs" and in2: "k2 < length offs"
    using lt k2 offs(1) by simp_all
  have r1: "0 \<le> offs ! k1" "offs ! k1 < 2 ^ 63" and r2: "0 \<le> offs ! k2" "offs ! k2 < 2 ^ 63"
    using offs(3) in1 in2 by (auto simp: all_set_conv_all_nth)
  have inc: "offs ! k1 < offs ! k2"
    using sorted_wrt_nth_less [OF offs(2) lt in2] .
  have u1: "to_u64 (offs ! k1) = offs ! k1" and u2: "to_u64 (offs ! k2) = offs ! k2"
    using r1 r2 by (simp_all add: to_u64_id)
  have u3: "to_u64 (offs ! k2 - offs ! k1) = offs ! k2 - offs ! k1"
    using r1 r2 inc by (simp add: to_u64_id)
  define r where "r = \<lparr>read_pos = offs ! k1, read_size = offs ! k2 - offs ! k1,
                         start_keyframe = kps ! k1, end_keyframe = kps ! k2\<rparr>"
  have li: "load_interval kps offs \<lparr>interval_start = s, interval_end = e\<rparr> = Inr r"
    using fki in1 in2 by (simp add: load_interval_def Let_def u1 u2 u3 r_def)
  have rp: "read_pos r = offs ! k1" "read_pos r + read_size r = offs ! k2"
    by (simp_all add: r_def)
  from fki lt k2 k1_le largest between li rp show ?thesis
    by (intro exI [of _ k1] exI [of _ k2] exI [of _ r]) auto
qed

theorem keyframe_bracket_witness:
  "\<exists>k1 k2 r.
     find_keyframe_indices 12 25 [0, 10, 20, 30] = Inr (k1, k2) \<and>
     k1 < k2 \<and> k2 < length [0, 10, 20, 30 :: int] \<and>
     [0, 10, 20, 30] ! k1 \<le> (12 :: int) \<and>
     (\<forall>j < length [0, 10, 20, 30 :: int]. [0, 10, 20, 30] ! j \<le> (12 :: int) \<longrightarrow> j \<le> k1) \<and>
     (25 :: int) \<le> [0, 10, 20, 30] ! k2 \<and>
     (\<forall>j. k1 < j \<and> j < k2 \<longrightarrow> [0, 10, 20, 30] ! j < (25 :: int)) \<and>
     load_interval [0, 10, 20, 30] [0, 100, 250, 400]
        \<lparr>interval_start = 12, interval_end = 25\<rparr> = Inr r \<and>
     read_pos r = [0, 100, 250, 400] ! k1 \<and>
     read_pos r + read_size r = [0, 100, 250, 400] ! k2"
  by (rule keyframe_bracket) simp_all

section \<open>The plan for All sampling\<close>

lemma plan_all_video_step:
  "a < n \<Longrightarrow> plan_all_video W i n a (wis, les) =
     plan_all_video W i n (a + min W (n - a))
       (wis @ [all_item W i n a], les @ [all_load W n a (int (length wis))])"
  by (subst plan_all_video.simps) (simp add: Let_def all_item_def all_load_def)

lemma plan_all_video_stop:
  "\<not> a < n \<Longrightarrow> plan_all_video W i n a p = Some p"
  by (subst plan_all_video.simps) simp

lemma plan_all_video_chunks:
  assumes W: "0 < W"
  shows "\<exists>ws ls. plan_all_video W i n a (wis, les) = Some (wis @ ws, les @ ls) \<and>
           length ls = length ws \<and>
           (\<forall>k. k < length ws \<longleftrightarrow> a + int k * W < n) \<and>
           (\<forall>k < length ws. ws ! k = all_item W i n (a + int k * W) \<and>
                             ls ! k = all_load W n (a + int k * W) (int (length wis + k)))"
proof (induction "nat (n - a)" arbitrary: a wis les rule: less_induct)
  case less
  show ?case
  proof (cases "a < n")
    case False
    then have "\<And>k. \<not> a + int k * W < n"
      using W by (smt (verit) mult_nonneg_nonneg of_nat_0_le_iff)
    with False show ?thesis
      by (intro exI [of _ "[]"]) (simp add: plan_all_video_stop)
  next
    case True
    define f where "f = min W (n - a)"
    have f: "0 < f" "f \<le> W" "a + f \<le> n" using True W by (auto simp: f_def)
    have "nat (n - (a + f)) < nat (n - a)" using f True by linarith
    from less [OF this, of "wis @ [all_item W i n a]" "les @ [all_load W n a (int (length wis))]"]
    obtain ws ls where
      run: "plan_all_video W i n (a + f)
              (wis @ [all_item W i n a], les @ [all_load W n a (int (length wis))]) =
            Some ((wis @ [all_item W i n a]) @ ws, (les @ [all_load W n a (int (length wis))]) @ ls)"
      and len: "length ls = length ws"
      and cnt: "\<And>k. k < length ws \<longleftrightarrow> a + f + int k * W < n"
      and nth: "\<And>k. k < length ws \<Longrightarrow>
                  ws ! k = all_item W i n (a + f + int k * W) \<and>
                  ls ! k = all_load W n (a + f + int k * W) (int (length (wis @ [all_item W i n a]) + k))"
      by blast
    have full: "ws \<noteq> [] \<Longrightarrow> f = W"
    proof (rule ccontr)
      assume "ws \<noteq> []" "f \<noteq> W"
      then have "0 < length ws" "a + f = n" using f by (auto simp: f_def)
      with cnt [of 0] show False by simp
    qed
    let ?ws = "all_item W i n a # ws" and ?ls = "all_load W n a (int (length wis)) # ls"
    have 1: "plan_all_video W i n a (wis, les) = Some (wis @ ?ws, les @ ?ls)"
      using plan_all_video_step [OF True, of W i wis les] run by (simp add: f_def)
    have 2: "\<And>k. k < length ?ws \<longleftrightarrow> a + int k * W < n"
    proof -
      fix k show "k < length ?ws \<longleftrightarrow> a + int k * W < n"
      proof (cases k)
        case 0 with True show ?thesis by simp
      next
        case (Suc m)
        show ?thesis
        proof (cases "f = W")
          case True
          with cnt [of m] Suc show ?thesis by (simp add: algebra_simps)
        next
          case False
          with full have e: "ws = []" by blast
          from False f have eq: "a + f = n" by (auto simp: f_def)
          have nn: "0 \<le> int m * W" using W by simp
          have "\<not> a + (int m * W + W) < n" using nn eq f by linarith
          then show ?thesis using Suc e by (simp add: algebra_simps)
        qed
      qed
    qed
    have 3: "\<And>k. k < length ?ws \<Longrightarrow>
               ?ws ! k = all_item W i n (a + int k * W) \<and>
               ?ls ! k = all_load W n (a + int k * W) (int (length wis + k))"
    proof -
      fix k assume k: "k < length ?ws"
      show "?ws ! k = all_item W i n (a + int k * W) \<and>
            ?ls ! k = all_load W n (a + int k * W) (int (length wis + k))"
      proof (cases k)
        case 0 then show ?thesis by simp
      next
        case (Suc m)
        with k have m: "m < length ws" by simp
        then have "ws \<noteq> []" by auto
        with full have "f = W" .
        with nth [OF m] Suc show ?thesis by (simp add: algebra_simps)
      qed
    qed
    from 1 2 3 len show ?thesis
      by (intro exI [of _ ?ws] exI [of _ ?ls]) simp
  qed
qed

lemma plan_all_video_block:
  assumes "0 < W"
  shows "\<exists>ws ls. plan_all_video W i n 0 (wis, les) = Some (wis @ ws, les @ ls) \<and>
                  all_block W i n (length wis) ws ls"
  using plan_all_video_chunks [OF assms, of i n 0 wis les]
  unfolding all_block_def by simp

lemma plan_all_blocks:
  assumes W: "0 < W"
  shows "\<exists>blocks lblocks.
           plan_all W metas i0 (wis, les) = Some (wis @ concat blocks, les @ concat lblocks) \<and>
           length blocks = length metas \<and> length lblocks = length metas \<and>
           (\<forall>j < length metas.
              all_block W (int (i0 + j)) (frames (metas ! j))
                (length wis + length (concat (take j blocks))) (blocks ! j) (lblocks ! j))"
proof (induction metas arbitrary: i0 wis les)
  case Nil
  show ?case by (intro exI [of _ "[]"]) simp
next
  case (Cons m ms)
  from plan_all_video_block [OF W, of "int i0" "frames m" wis les] obtain ws ls
    where v: "plan_all_video W (int i0) (frames m) 0 (wis, les) = Some (wis @ ws, les @ ls)"
      and b: "all_block W (int i0) (frames m) (length wis) ws ls" by blast
  from Cons [of "Suc i0" "wis @ ws" "les @ ls"] obtain blocks lblocks
    where r: "plan_all W ms (Suc i0) (wis @ ws, les @ ls) =
                Some ((wis @ ws) @ concat blocks, (les @ ls) @ concat lblocks)"
      and l: "length blocks = length ms" "length lblocks = length ms"
      and bs: "\<And>j. j < length ms \<Longrightarrow>
                 all_block W (int (Suc i0 + j)) (frames (ms ! j))
                   (length (wis @ ws) + length (concat (take j blocks))) (blocks ! j) (lblocks ! j)"
    by blast
  have "\<And>j. j < length (m # ms) \<Longrightarrow>
          all_block W (int (i0 + j)) (frames ((m # ms) ! j))
            (length wis + length (concat (take j (ws # blocks)))) ((ws # blocks) ! j) ((ls # lblocks) ! j)"
  proof -
    fix j assume j: "j < length (m # ms)"
    show "all_block W (int (i0 + j)) (frames ((m # ms) ! j))
            (length wis + length (concat (take j (ws # blocks)))) ((ws # blocks) ! j) ((ls # lblocks) ! j)"
    proof (cases j)
      case 0 with b show ?thesis by simp
    next
      case (Suc j')
      with j have "j' < length ms" by simp
      from bs [OF this] Suc show ?thesis by (simp add: add.assoc)
    qed
  qed
  with v r l show ?case
    by (intro exI [of _ "ws # blocks"] exI [of _ "ls # lblocks"]) simp
qed

text \<open>
  Claim C6. For \<open>All\<close> sampling with a positive work item size \<open>W\<close>, the plan is the
  concatenation of one block of work items per video, in order. Block \<open>i\<close> has an item
  \<open>k\<close> exactly when \<open>k * W\<close> is less than the frame count of video \<open>i\<close>; that item has
  \<open>item_id = k * W\<close>, \<open>next_item_id = item_id + chunk_size\<close> with
  \<open>chunk_size = min W (frames - k * W)\<close>, and \<open>rows_from_start = item_id\<close>; the load entry
  at the same position carries the interval \<open>[item_id, next_item_id)\<close> and the index of the
  work item.
\<close>

theorem plan_all_chunks:
  assumes "0 < W"
  shows "\<exists>blocks lblocks.
           plan_all W metas 0 ([], []) = Some (concat blocks, concat lblocks) \<and>
           length blocks = length metas \<and> length lblocks = length metas \<and>
           (\<forall>i < length metas.
              length (lblocks ! i) = length (blocks ! i) \<and>
              (\<forall>k. k < length (blocks ! i) \<longleftrightarrow> int k * W < frames (metas ! i)) \<and>
              (\<forall>k < length (blocks ! i).
                 blocks ! i ! k =
                   \<lparr>video_index = int i, item_id = int k * W,
                    next_item_id = int k * W + min W (frames (metas ! i) - int k * W),
                    rows_from_start = int k * W\<rparr> \<and>
                 interval (lblocks ! i ! k) =
                   Some \<lparr>interval_start = int k * W,
                         interval_end = int k * W + min W (frames (metas ! i) - int k * W)\<rparr> \<and>
                 work_item_index (lblocks ! i ! k) = int (length (concat (take i blocks)) + k)))"
proof -
  from plan_all_blocks [OF assms, of metas 0 "[]" "[]"] obtain blocks lblocks
    where p: "plan_all W metas 0 ([], []) = Some (concat blocks, concat lblocks)"
      and l: "length blocks = length metas" "length lblocks = length metas"
      and b: "\<And>j. j < length metas \<Longrightarrow>
                all_block W (int j) (frames (metas ! j))
                  (length (concat (take j blocks))) (blocks ! j) (lblocks ! j)"
    by auto
  show ?thesis
  proof (intro exI [of _ blocks] exI [of _ lblocks] conjI allI impI)
    fix i assume "i < length metas"
    from b [OF this] show "length (lblocks ! i) = length (blocks ! i)"
      by (simp add: all_block_def)
  next
    fix i k assume "i < length metas"
    from b [OF this] show "k < length (blocks ! i) \<longleftrightarrow> int k * W < frames (metas ! i)"
      by (simp add: all_block_def)
  next
    fix i k assume "i < length metas" "k < length (blocks ! i)"
    with b [OF this(1)] show "blocks ! i ! k =
                   \<lparr>video_index = int i, item_id = int k * W,
                    next_item_id = int k * W + min W (frames (metas ! i) - int k * W),
                    rows_from_start = int k * W\<rparr>"
      by (simp add: all_block_def all_item_def)
  next
    fix i k assume "i < length metas" "k < length (blocks ! i)"
    with b [OF this(1)] show "interval (lblocks ! i ! k) =
                   Some \<lparr>interval_start = int k * W,
                         interval_end = int k * W + min W (frames (metas ! i) - int k * W)\<rparr>"
      by (simp add: all_block_def all_load_def)
  next
    fix i k assume "i < length metas" "k < length (blocks ! i)"
    with b [OF this(1)] show "work_item_index (lblocks ! i ! k) = int (length (concat (take i blocks)) + k)"
      by (simp add: all_block_def all_load_def new_load_entry_def)
  qed (use p l in simp_all)
qed

theorem plan_all_chunks_witness:
  "\<exists>blocks lblocks.
           plan_all 16 [video_of_frames 40, video_of_frames 5] 0 ([], []) = Some (concat blocks, concat lblocks) \<and>
           length blocks = length [video_of_frames 40, video_of_frames 5] \<and> length lblocks = length [video_of_frames 40, video_of_frames 5] \<and>
           (\<forall>i < length [video_of_frames 40, video_of_frames 5].
              length (lblocks ! i) = length (blocks ! i) \<and>
              (\<forall>k. k < length (blocks ! i) \<longleftrightarrow> int k * 16 < frames ([video_of_frames 40, video_of_frames 5] ! i)) \<and>
              (\<forall>k < length (blocks ! i).
                 blocks ! i ! k =
                   \<lparr>video_index = int i, item_id = int k * 16,
                    next_item_id = int k * 16 + min 16 (frames ([video_of_frames 40, video_of_frames 5] ! i) - int k * 16),
                    rows_from_start = int k * 16\<rparr> \<and>
                 interval (lblocks ! i ! k) =
                   Some \<lparr>interval_start = int k * 16,
                         interval_end = int k * 16 + min 16 (frames ([video_of_frames 40, video_of_frames 5] ! i) - int k * 16)\<rparr> \<and>
                 work_item_index (lblocks ! i ! k) = int (length (concat (take i blocks)) + k)))"
  by (rule plan_all_chunks) simp

section \<open>The plan for SequenceGather sampling\<close>

lemma plan_sequence_chunks_step:
  assumes "a < n" "0 \<le> a" "0 < W" "0 \<le> interval_start iv" "interval_start iv + n < 2 ^ 31"
    and "0 \<le> t" "t + (n - a) < 2 ^ 31"
  shows "plan_sequence_chunks W vi iv n a t (wis, les) =
     plan_sequence_chunks W vi iv n (a + min W (n - a)) (t + min W (n - a))
       (wis @ [chunk_item W vi n a t], les @ [chunk_load W iv n a (int (length wis))])"
proof -
  define f where "f = min W (n - a)"
  have f: "0 < f" "f \<le> n - a" using assms by (auto simp: f_def)
  have 1: "to_i32 (n - a) = n - a" using assms by (intro to_i32_id) (simp add: in_i32_def)
  have 2: "to_i32 (t + f) = t + f" using assms f by (intro to_i32_id) (simp add: in_i32_def)
  have 3: "to_i32 (a + f) = a + f" using assms f by (intro to_i32_id) (simp add: in_i32_def)
  have 4: "to_i32 (interval_start iv + a) = interval_start iv + a"
    using assms by (intro to_i32_id) (simp add: in_i32_def)
  have 5: "to_i32 (interval_start iv + a + f) = interval_start iv + a + f"
    using assms f by (intro to_i32_id) (simp add: in_i32_def)
  show ?thesis
    using assms(1) 1 2 3 4 5
    by (subst plan_sequence_chunks.simps)
       (simp add: Let_def chunk_item_def chunk_load_def f_def)
qed

lemma plan_sequence_chunks_stop:
  "\<not> a < n \<Longrightarrow> plan_sequence_chunks W vi iv n a t p = Some (t, p)"
  by (subst plan_sequence_chunks.simps) simp

lemma plan_sequence_chunks_list:
  assumes W: "0 < W" and s: "0 \<le> interval_start iv" "interval_start iv + n < 2 ^ 31"
  shows "0 \<le> a \<Longrightarrow> 0 \<le> t \<Longrightarrow> t + max 0 (n - a) < 2 ^ 31 \<Longrightarrow>
         \<exists>ws ls. plan_sequence_chunks W vi iv n a t (wis, les) =
             Some (t + max 0 (n - a), (wis @ ws, les @ ls)) \<and>
           length ls = length ws \<and>
           (\<forall>k. k < length ws \<longleftrightarrow> a + int k * W < n) \<and>
           (\<forall>k < length ws. ws ! k = chunk_item W vi n (a + int k * W) (t + int k * W) \<and>
                             ls ! k = chunk_load W iv n (a + int k * W) (int (length wis + k)))"
proof (induction "nat (n - a)" arbitrary: a t wis les rule: less_induct)
  case less
  show ?case
  proof (cases "a < n")
    case False
    have "\<And>k. \<not> a + int k * W < n"
    proof -
      fix k have "0 \<le> int k * W" using W by simp
      with False show "\<not> a + int k * W < n" by linarith
    qed
    with False show ?thesis
      by (intro exI [of _ "[]"]) (simp add: plan_sequence_chunks_stop)
  next
    case True
    define f where "f = min W (n - a)"
    have f: "0 < f" "f \<le> W" "a + f \<le> n" using True W by (auto simp: f_def)
    let ?it = "chunk_item W vi n a t" and ?ld = "chunk_load W iv n a (int (length wis))"
    have m: "nat (n - (a + f)) < nat (n - a)" using f True by linarith
    have a': "0 \<le> a + f" using less.prems(1) f by linarith
    have t': "0 \<le> t + f" using less.prems(2) f by linarith
    have b': "t + f + max 0 (n - (a + f)) < 2 ^ 31" using less.prems(3) f by simp
    from less.hyps [OF m a' t' b', of "wis @ [?it]" "les @ [?ld]"]
    obtain ws ls where
      run: "plan_sequence_chunks W vi iv n (a + f) (t + f) (wis @ [?it], les @ [?ld]) =
            Some (t + f + max 0 (n - (a + f)), ((wis @ [?it]) @ ws, (les @ [?ld]) @ ls))"
      and len: "length ls = length ws"
      and cnt: "\<And>k. k < length ws \<longleftrightarrow> a + f + int k * W < n"
      and nth: "\<And>k. k < length ws \<Longrightarrow>
                  ws ! k = chunk_item W vi n (a + f + int k * W) (t + f + int k * W) \<and>
                  ls ! k = chunk_load W iv n (a + f + int k * W) (int (length (wis @ [?it]) + k))"
      by blast
    have full: "ws \<noteq> [] \<Longrightarrow> f = W"
    proof (rule ccontr)
      assume "ws \<noteq> []" "f \<noteq> W"
      then have "0 < length ws" "a + f = n" using f by (auto simp: f_def)
      with cnt [of 0] show False by simp
    qed
    let ?ws = "?it # ws" and ?ls = "?ld # ls"
    have tot: "t + f + max 0 (n - (a + f)) = t + max 0 (n - a)" using f by simp
    have bound: "t + (n - a) < 2 ^ 31" using less.prems(3) True by simp
    have 1: "plan_sequence_chunks W vi iv n a t (wis, les) =
               Some (t + max 0 (n - a), (wis @ ?ws, les @ ?ls))"
      using plan_sequence_chunks_step [OF True less.prems(1) W s less.prems(2) bound, of vi wis les]
        run tot by (simp add: f_def)
    have 2: "\<And>k. k < length ?ws \<longleftrightarrow> a + int k * W < n"
    proof -
      fix k show "k < length ?ws \<longleftrightarrow> a + int k * W < n"
      proof (cases k)
        case 0 with True show ?thesis by simp
      next
        case (Suc m)
        show ?thesis
        proof (cases "f = W")
          case True
          with cnt [of m] Suc show ?thesis by (simp add: algebra_simps)
        next
          case False
          with full have e: "ws = []" by blast
          from False f have eq: "a + f = n" by (auto simp: f_def)
          have nn: "0 \<le> int m * W" using W by simp
          have "\<not> a + (int m * W + W) < n" using nn eq f by linarith
          then show ?thesis using Suc e by (simp add: algebra_simps)
        qed
      qed
    qed
    have 3: "\<And>k. k < length ?ws \<Longrightarrow>
               ?ws ! k = chunk_item W vi n (a + int k * W) (t + int k * W) \<and>
               ?ls ! k = chunk_load W iv n (a + int k * W) (int (length wis + k))"
    proof -
      fix k assume k: "k < length ?ws"
      show "?ws ! k = chunk_item W vi n (a + int k * W) (t + int k * W) \<and>
            ?ls ! k = chunk_load W iv n (a + int k * W) (int (length wis + k))"
      proof (cases k)
        case 0 then show ?thesis by simp
      next
        case (Suc m)
        with k have m: "m < length ws" by simp
        then have "ws \<noteq> []" by auto
        with full have "f = W" .
        with nth [OF m] Suc show ?thesis by (simp add: algebra_simps)
      qed
    qed
    from 1 2 3 len show ?thesis
      by (intro exI [of _ ?ws] exI [of _ ?ls]) simp
  qed
qed

lemma frame_interval_frames:
  assumes "frame_interval iv"
  shows "0 < interval_frames iv" and "interval_frames iv < 2 ^ 31"
    and "to_i32 (interval_end iv - interval_start iv) = interval_frames iv"
    and "interval_start iv + interval_frames iv < 2 ^ 31"
proof -
  from assms show 1: "0 < interval_frames iv" and 2: "interval_frames iv < 2 ^ 31"
    and "interval_start iv + interval_frames iv < 2 ^ 31"
    by (simp_all add: frame_interval_def interval_frames_def)
  from 1 2 show "to_i32 (interval_end iv - interval_start iv) = interval_frames iv"
    unfolding interval_frames_def by (intro to_i32_id) (simp add: in_i32_def)
qed

lemma plan_sequence_interval_block:
  assumes W: "0 < W" and valid: "frame_interval iv"
    and t: "0 \<le> t" "t + interval_frames iv < 2 ^ 31"
  shows "\<exists>raw ws ls.
           plan_sequence_chunks W vi iv (to_i32 (interval_end iv - interval_start iv)) 0 t
               (wis, les) =
             Some (t + interval_frames iv, (wis @ raw, les @ ls)) \<and>
           reset_after_back (wis @ raw) = Inr (wis @ ws) \<and>
           seq_block W vi t iv (length wis) ws ls"
proof -
  let ?n = "interval_frames iv"
  note fi = frame_interval_frames [OF valid]
  have n: "0 < ?n" by (rule fi(1))
  have s: "0 \<le> interval_start iv" using valid by (simp add: frame_interval_def)
  have b: "t + max 0 (?n - 0) < 2 ^ 31" using t n by simp
  from plan_sequence_chunks_list [OF W s fi(4) _ t(1) b, of vi wis les] obtain raw ls where
    run: "plan_sequence_chunks W vi iv ?n 0 t (wis, les) = Some (t + ?n, (wis @ raw, les @ ls))"
    and len: "length ls = length raw"
    and cnt: "\<And>k. k < length raw \<longleftrightarrow> int k * W < ?n"
    and nth: "\<And>k. k < length raw \<Longrightarrow>
                raw ! k = chunk_item W vi ?n (int k * W) (t + int k * W) \<and>
                ls ! k = chunk_load W iv ?n (int k * W) (int (length wis + k))"
    using n by auto
  from cnt [of 0] n have ne: "raw \<noteq> []" by auto
  define ws where "ws = raw [length raw - 1 := (last raw) \<lparr>next_item_id := - 1\<rparr>]"
  have rab: "reset_after_back (wis @ raw) = Inr (wis @ ws)"
  proof -
    from ne have "0 < length raw" by simp
    then have "\<not> length wis + length raw - 1 < length wis"
      and "length wis + length raw - 1 - length wis = length raw - 1" by linarith+
    then have "(wis @ raw) [length (wis @ raw) - 1 := (last raw) \<lparr>next_item_id := - 1\<rparr>] = wis @ ws"
      by (simp add: ws_def list_update_append)
    with ne show ?thesis by (simp add: reset_after_back_def)
  qed
  have lw: "length ws = length raw" by (simp add: ws_def)
  have items: "\<And>k. k < length ws \<Longrightarrow> ws ! k = seq_item W vi t ?n k"
  proof -
    fix k assume k: "k < length ws"
    with lw have kr: "k < length raw" by simp
    show "ws ! k = seq_item W vi t ?n k"
    proof (cases "k = length raw - 1")
      case True
      then have "\<not> Suc k < length raw" by simp
      with cnt [of "Suc k"] have stop: "\<not> (int k + 1) * W < ?n" by (simp add: algebra_simps)
      have "ws ! k = (last raw) \<lparr>next_item_id := - 1\<rparr>"
        using True kr by (simp add: ws_def)
      also have "last raw = raw ! k" using True ne by (simp add: last_conv_nth)
      finally show ?thesis using nth [OF kr] stop
        by (simp add: seq_item_def chunk_item_def)
    next
      case False
      with kr have "Suc k < length raw" by simp
      with cnt [of "Suc k"] have more: "(int k + 1) * W < ?n" by (simp add: algebra_simps)
      then have "min W (?n - int k * W) = W" by (simp add: algebra_simps)
      moreover have "ws ! k = raw ! k" using False by (simp add: ws_def)
      ultimately show ?thesis using nth [OF kr] more
        by (simp add: seq_item_def chunk_item_def algebra_simps)
    qed
  qed
  have loads: "\<And>k. k < length ws \<Longrightarrow> ls ! k = seq_load W iv k (int (length wis + k))"
    using nth lw by (simp add: seq_load_def chunk_load_def)
  have "seq_block W vi t iv (length wis) ws ls"
    unfolding seq_block_def using len lw cnt items loads by simp
  with run rab fi(3) show ?thesis by simp
qed

lemma frames_before_Cons:
  "frames_before (iv # ivs) (Suc j) = interval_frames iv + frames_before ivs j"
  by (simp add: frames_before_def)

lemma plan_sequence_intervals_blocks:
  assumes W: "0 < W"
  shows "\<forall>iv \<in> set ivs. frame_interval iv \<Longrightarrow> 0 \<le> t \<Longrightarrow>
         t + sum_list (map interval_frames ivs) < 2 ^ 31 \<Longrightarrow>
         \<exists>blocks lblocks.
           plan_sequence_intervals W vi ivs t (wis, les) =
             Some (Inr (wis @ concat blocks, les @ concat lblocks)) \<and>
           length blocks = length ivs \<and> length lblocks = length ivs \<and>
           (\<forall>j < length ivs.
              seq_block W vi (t + frames_before ivs j) (ivs ! j)
                (length wis + length (concat (take j blocks))) (blocks ! j) (lblocks ! j))"
proof (induction ivs arbitrary: t wis les)
  case Nil
  show ?case by (intro exI [of _ "[]"]) simp
next
  case (Cons iv ivs)
  then have valid: "frame_interval iv"
    and rest: "\<forall>iv \<in> set ivs. frame_interval iv" by simp_all
  have nn: "0 \<le> sum_list (map interval_frames ivs)"
  proof (rule sum_list_nonneg)
    fix x assume "x \<in> set (map interval_frames ivs)"
    then obtain i where "i \<in> set ivs" "x = interval_frames i" by auto
    with rest frame_interval_frames(1) [of i] show "0 \<le> x" by auto
  qed
  have pos: "0 < interval_frames iv" by (rule frame_interval_frames(1) [OF valid])
  have t1: "t + interval_frames iv < 2 ^ 31" using Cons.prems(3) nn by simp
  have t2: "0 \<le> t + interval_frames iv" using Cons.prems(2) pos by simp
  have t3: "t + interval_frames iv + sum_list (map interval_frames ivs) < 2 ^ 31"
    using Cons.prems(3) by simp
  from plan_sequence_interval_block [OF W valid Cons.prems(2) t1, of vi wis les]
  obtain raw ws ls where
    run: "plan_sequence_chunks W vi iv (to_i32 (interval_end iv - interval_start iv)) 0 t
            (wis, les) =
            Some (t + interval_frames iv, (wis @ raw, les @ ls))"
    and rab: "reset_after_back (wis @ raw) = Inr (wis @ ws)"
    and blk: "seq_block W vi t iv (length wis) ws ls" by blast
  from Cons.IH [OF rest t2 t3, of "wis @ ws" "les @ ls"]
  obtain blocks lblocks where
    r: "plan_sequence_intervals W vi ivs (t + interval_frames iv) (wis @ ws, les @ ls) =
          Some (Inr ((wis @ ws) @ concat blocks, (les @ ls) @ concat lblocks))"
    and l: "length blocks = length ivs" "length lblocks = length ivs"
    and bs: "\<And>j. j < length ivs \<Longrightarrow>
               seq_block W vi (t + interval_frames iv + frames_before ivs j) (ivs ! j)
                 (length (wis @ ws) + length (concat (take j blocks))) (blocks ! j) (lblocks ! j)"
    by blast
  have "\<And>j. j < length (iv # ivs) \<Longrightarrow>
          seq_block W vi (t + frames_before (iv # ivs) j) ((iv # ivs) ! j)
            (length wis + length (concat (take j (ws # blocks))))
            ((ws # blocks) ! j) ((ls # lblocks) ! j)"
  proof -
    fix j assume j: "j < length (iv # ivs)"
    show "seq_block W vi (t + frames_before (iv # ivs) j) ((iv # ivs) ! j)
            (length wis + length (concat (take j (ws # blocks))))
            ((ws # blocks) ! j) ((ls # lblocks) ! j)"
    proof (cases j)
      case 0 with blk show ?thesis by (simp add: frames_before_def)
    next
      case (Suc j')
      with j have "j' < length ivs" by simp
      from bs [OF this] Suc show ?thesis by (simp add: add.assoc frames_before_Cons)
    qed
  qed
  with run rab r l show ?case
    by (intro exI [of _ "ws # blocks"] exI [of _ "ls # lblocks"]) simp
qed

lemma plan_sequence_gather_blocks:
  assumes W: "0 < W"
  shows "\<forall>s \<in> set samples. frame_sequence s \<Longrightarrow>
         \<exists>sblocks slblocks.
           plan_sequence_gather W samples (wis, les) =
             Some (Inr (wis @ concat (concat sblocks), les @ concat (concat slblocks))) \<and>
           length sblocks = length samples \<and> length slblocks = length samples \<and>
           (\<forall>s < length samples.
              length (sblocks ! s) = length (samples_intervals (samples ! s)) \<and>
              length (slblocks ! s) = length (samples_intervals (samples ! s)) \<and>
              (\<forall>j < length (samples_intervals (samples ! s)).
                 seq_block W (samples_video_index (samples ! s))
                   (frames_before (samples_intervals (samples ! s)) j)
                   (samples_intervals (samples ! s) ! j)
                   (length wis + length (concat (concat (take s sblocks))) +
                      length (concat (take j (sblocks ! s))))
                   (sblocks ! s ! j) (slblocks ! s ! j)))"
proof (induction samples arbitrary: wis les)
  case Nil
  show ?case by (intro exI [of _ "[]"]) simp
next
  case (Cons sm samples)
  then have valid: "\<forall>iv \<in> set (samples_intervals sm). frame_interval iv"
    and bound: "0 + sum_list (map interval_frames (samples_intervals sm)) < 2 ^ 31"
    and rest: "\<forall>s \<in> set samples. frame_sequence s"
    by (simp_all add: frame_sequence_def)
  from plan_sequence_intervals_blocks [OF W valid _ bound, of "samples_video_index sm" wis les]
  obtain blocks lblocks where
    run: "plan_sequence_intervals W (samples_video_index sm) (samples_intervals sm) 0 (wis, les) =
            Some (Inr (wis @ concat blocks, les @ concat lblocks))"
    and bl: "length blocks = length (samples_intervals sm)"
            "length lblocks = length (samples_intervals sm)"
    and blk: "\<And>j. j < length (samples_intervals sm) \<Longrightarrow>
                seq_block W (samples_video_index sm) (frames_before (samples_intervals sm) j)
                  (samples_intervals sm ! j)
                  (length wis + length (concat (take j blocks))) (blocks ! j) (lblocks ! j)"
    by auto
  from Cons.IH [OF rest, of "wis @ concat blocks" "les @ concat lblocks"]
  obtain sblocks slblocks where
    r: "plan_sequence_gather W samples (wis @ concat blocks, les @ concat lblocks) =
          Some (Inr ((wis @ concat blocks) @ concat (concat sblocks),
                     (les @ concat lblocks) @ concat (concat slblocks)))"
    and l: "length sblocks = length samples" "length slblocks = length samples"
    and bs: "\<And>s. s < length samples \<Longrightarrow>
              length (sblocks ! s) = length (samples_intervals (samples ! s)) \<and>
              length (slblocks ! s) = length (samples_intervals (samples ! s)) \<and>
              (\<forall>j < length (samples_intervals (samples ! s)).
                 seq_block W (samples_video_index (samples ! s))
                   (frames_before (samples_intervals (samples ! s)) j)
                   (samples_intervals (samples ! s) ! j)
                   (length (wis @ concat blocks) + length (concat (concat (take s sblocks))) +
                      length (concat (take j (sblocks ! s))))
                   (sblocks ! s ! j) (slblocks ! s ! j))"
    by blast
  let ?S = "sm # samples" and ?B = "blocks # sblocks" and ?L = "lblocks # slblocks"
  have "\<And>s. s < length ?S \<Longrightarrow>
              length (?B ! s) = length (samples_intervals (?S ! s)) \<and>
              length (?L ! s) = length (samples_intervals (?S ! s)) \<and>
              (\<forall>j < length (samples_intervals (?S ! s)).
                 seq_block W (samples_video_index (?S ! s))
                   (frames_before (samples_intervals (?S ! s)) j)
                   (samples_intervals (?S ! s) ! j)
                   (length wis + length (concat (concat (take s ?B))) +
                      length (concat (take j (?B ! s))))
                   (?B ! s ! j) (?L ! s ! j))"
  proof -
    fix s assume s: "s < length ?S"
    show "length (?B ! s) = length (samples_intervals (?S ! s)) \<and>
              length (?L ! s) = length (samples_intervals (?S ! s)) \<and>
              (\<forall>j < length (samples_intervals (?S ! s)).
                 seq_block W (samples_video_index (?S ! s))
                   (frames_before (samples_intervals (?S ! s)) j)
                   (samples_intervals (?S ! s) ! j)
                   (length wis + length (concat (concat (take s ?B))) +
                      length (concat (take j (?B ! s))))
                   (?B ! s ! j) (?L ! s ! j))"
    proof (cases s)
      case 0 with bl blk show ?thesis by simp
    next
      case (Suc s')
      with s have "s' < length samples" by simp
      from bs [OF this] Suc show ?thesis by (simp add: add.assoc)
    qed
  qed
  with run r l show ?case
    by (intro exI [of _ ?B] exI [of _ ?L]) simp
qed

lemma frames_before_le:
  assumes "\<forall>iv \<in> set ivs. frame_interval iv" and "i \<le> j"
  shows "frames_before ivs i \<le> frames_before ivs j"
proof -
  from \<open>i \<le> j\<close> have "take j ivs = take i ivs @ take (j - i) (drop i ivs)"
    using take_add [of i "j - i" ivs] by simp
  moreover have "0 \<le> sum_list (map interval_frames (take (j - i) (drop i ivs)))"
  proof (rule sum_list_nonneg)
    fix x assume "x \<in> set (map interval_frames (take (j - i) (drop i ivs)))"
    then obtain iv where "iv \<in> set (take (j - i) (drop i ivs))" "x = interval_frames iv" by auto
    then have "iv \<in> set ivs" by (meson in_set_dropD in_set_takeD)
    with assms(1) \<open>x = interval_frames iv\<close> frame_interval_frames(1) [of iv]
    show "0 \<le> x" by auto
  qed
  ultimately show ?thesis by (simp add: frames_before_def)
qed

lemma frames_before_Suc:
  "j < length ivs \<Longrightarrow>
   frames_before ivs (Suc j) = frames_before ivs j + interval_frames (ivs ! j)"
  by (simp add: frames_before_def take_Suc_conv_app_nth)

lemma frames_before_0 [simp]: "frames_before ivs 0 = 0"
  by (simp add: frames_before_def)

lemma frames_before_all:
  "frames_before ivs (length ivs) = sum_list (map interval_frames ivs)"
  by (simp add: frames_before_def)

text \<open>
  Within one per-video sequence, the \<open>next_item_id\<close> of no item is the \<open>item_id\<close> of the
  first item of an interval.
\<close>

lemma seq_item_next_not_head:
  assumes W: "0 < W" and valid: "\<forall>iv \<in> set ivs. frame_interval iv"
    and bound: "sum_list (map interval_frames ivs) < 2 ^ 31"
    and j: "j < length ivs" and j': "j' < length ivs"
    and k': "int k' * W < interval_frames (ivs ! j')"
  shows "to_i32 (next_item_id (seq_item W vi (frames_before ivs j') (interval_frames (ivs ! j')) k'))
           \<noteq> item_id (seq_item W vi (frames_before ivs j) (interval_frames (ivs ! j)) 0)"
proof -
  let ?T = "frames_before ivs"
  have T0: "0 \<le> ?T j" "0 \<le> ?T j'"
    using frames_before_le [OF valid, of 0] by simp_all
  show ?thesis
  proof (cases "(int k' + 1) * W < interval_frames (ivs ! j')")
    case False
    with T0 show ?thesis by (simp add: seq_item_def to_i32_def)
  next
    case True
    let ?x = "?T j' + (int k' + 1) * W"
    have kW: "0 \<le> int k' * W" using W by simp
    have "(int k' + 1) * W = int k' * W + W" by (simp add: algebra_simps)
    with W kW have lo: "?T j' < ?x" by linarith
    have hi: "?x < ?T (Suc j')" using True j' by (simp add: frames_before_Suc)
    have "?T (Suc j') \<le> ?T (length ivs)" using j' by (intro frames_before_le [OF valid]) simp
    with bound have top: "?T (Suc j') < 2 ^ 31" by (simp add: frames_before_all)
    have "in_i32 ?x" using lo hi top T0 by (simp add: in_i32_def)
    then have x: "to_i32 ?x = ?x" by (rule to_i32_id)
    have "?x \<noteq> ?T j"
    proof (cases "j \<le> j'")
      case True
      from frames_before_le [OF valid True] lo show ?thesis by linarith
    next
      case False
      then have "Suc j' \<le> j" by simp
      from frames_before_le [OF valid this] hi show ?thesis by linarith
    qed
    with True x show ?thesis by (simp add: seq_item_def)
  qed
qed

lemma in_concat_concat:
  assumes "x \<in> set (concat (concat xsss))"
  obtains s j k where "s < length xsss" "j < length (xsss ! s)" "k < length (xsss ! s ! j)"
    "x = xsss ! s ! j ! k"
proof -
  from assms obtain xs where "xs \<in> set (concat xsss)" "x \<in> set xs" by auto
  then obtain xss where "xss \<in> set xsss" "xs \<in> set xss" by auto
  from \<open>xss \<in> set xsss\<close> obtain s where "s < length xsss" "xss = xsss ! s"
    by (auto simp: in_set_conv_nth)
  moreover from \<open>xs \<in> set xss\<close> obtain j where "j < length xss" "xs = xss ! j"
    by (auto simp: in_set_conv_nth)
  moreover from \<open>x \<in> set xs\<close> obtain k where "k < length xs" "x = xs ! k"
    by (auto simp: in_set_conv_nth)
  ultimately show ?thesis using that by blast
qed

lemma length_reset_flags [simp]: "length (reset_flags tr xs) = length xs"
  by (induction xs arbitrary: tr) simp_all

lemma reset_flags_append:
  "reset_flags tr (xs @ ys) =
     reset_flags tr xs @ reset_flags (if xs = [] then tr else advance_tracker (last xs)) ys"
  by (induction xs arbitrary: tr) simp_all

lemma to_i32_minus_one: "to_i32 (- 1) = - 1"
  by (simp add: to_i32_def)

lemma reset_at_block_heads:
  assumes "\<forall>b \<in> set bs. b \<noteq> [] \<and> next_item_id (last b) = - 1 \<and> 0 \<le> item_id (hd b)"
    and "last_next_item_id tr = - 1" and "m < length bs"
  shows "reset_flags tr (concat bs) ! length (concat (take m bs))"
  using assms
proof (induction bs arbitrary: tr m)
  case Nil
  then show ?case by simp
next
  case (Cons b bs)
  from Cons.prems(1) have b: "b \<noteq> []" "next_item_id (last b) = - 1" "0 \<le> item_id (hd b)"
    and rest: "\<forall>b \<in> set bs. b \<noteq> [] \<and> next_item_id (last b) = - 1 \<and> 0 \<le> item_id (hd b)"
    by simp_all
  show ?case
  proof (cases m)
    case 0
    from b obtain x xs where "b = x # xs" by (cases b) auto
    with b(3) Cons.prems(2) 0 show ?thesis by (simp add: needs_reset_def)
  next
    case (Suc m')
    with Cons.prems(3) have m': "m' < length bs" by simp
    have tr': "last_next_item_id (advance_tracker (last b)) = - 1"
      using b(2) by (simp add: advance_tracker_def to_i32_minus_one)
    from Cons.IH [OF rest tr' m']
    have "reset_flags (advance_tracker (last b)) (concat bs) ! length (concat (take m' bs))" .
    then show ?thesis using Suc b(1)
      by (simp add: reset_flags_append nth_append)
  qed
qed

lemma seq_block_shape:
  assumes blk: "seq_block W vi t iv off ws ls" and n: "interval_start iv < interval_end iv"
    and t: "0 \<le> t"
  shows "ws \<noteq> []" and "next_item_id (last ws) = - 1" and "0 \<le> item_id (hd ws)"
proof -
  from blk have cnt: "\<And>k. k < length ws \<longleftrightarrow> int k * W < interval_frames iv"
    and nth: "\<And>k. k < length ws \<Longrightarrow> ws ! k = seq_item W vi t (interval_frames iv) k"
    by (simp_all add: seq_block_def)
  from cnt [of 0] n show ne: "ws \<noteq> []" by (auto simp: interval_frames_def)
  then have l: "length ws - 1 < length ws" by simp
  have "\<not> Suc (length ws - 1) < length ws" by simp
  with cnt [of "Suc (length ws - 1)"]
  have "\<not> (int (length ws - 1) + 1) * W < interval_frames iv" by (simp add: algebra_simps)
  with nth [OF l] ne show "next_item_id (last ws) = - 1"
    by (simp add: last_conv_nth seq_item_def)
  from ne have "0 < length ws" by simp
  from nth [OF this] ne t show "0 \<le> item_id (hd ws)"
    by (simp add: hd_conv_nth seq_item_def)
qed

text \<open>
  The plan for \<open>SequenceGather\<close> sampling with a positive work item size \<open>W\<close>, for
  sequences of frame intervals whose lengths add up to an \<open>i32\<close>. It is the
  concatenation, over the per-video sequences and their intervals, of one non-empty block
  of work items per interval. Item \<open>k\<close> of a block exists exactly when \<open>k * W\<close> is less
  than the length of the interval; its load entry carries the chunk
  \<open>[start + k * W, start + k * W + min W (length - k * W))\<close>, its \<open>item_id\<close> counts the
  frames of all earlier chunks of the per-video sequence, and its \<open>next_item_id\<close> is \<open>-1\<close>
  when it is the last item of the interval. A worker that starts with the first item and
  processes all items of the plan in order needs a reset at the first item of every
  interval.
\<close>

lemma plan_sequence_gather_items:
  assumes W: "0 < W"
    and valid: "\<forall>s \<in> set samples. frame_sequence s"
  shows "\<exists>sblocks slblocks.
           plan_sequence_gather W samples ([], []) =
             Some (Inr (concat (concat sblocks), concat (concat slblocks))) \<and>
           length sblocks = length samples \<and> length slblocks = length samples \<and>
           (\<forall>s < length samples.
              length (sblocks ! s) = length (samples_intervals (samples ! s)) \<and>
              length (slblocks ! s) = length (samples_intervals (samples ! s)) \<and>
              (\<forall>j < length (samples_intervals (samples ! s)).
                 length (slblocks ! s ! j) = length (sblocks ! s ! j) \<and>
                 sblocks ! s ! j \<noteq> [] \<and>
                 (\<forall>k. k < length (sblocks ! s ! j) \<longleftrightarrow>
                        int k * W < interval_frames (samples_intervals (samples ! s) ! j)) \<and>
                 (\<forall>k < length (sblocks ! s ! j).
                    video_index (sblocks ! s ! j ! k) = samples_video_index (samples ! s) \<and>
                    item_id (sblocks ! s ! j ! k) =
                      frames_before (samples_intervals (samples ! s)) j + int k * W \<and>
                    next_item_id (sblocks ! s ! j ! k) =
                      (if Suc k = length (sblocks ! s ! j) then - 1
                       else item_id (sblocks ! s ! j ! k) + W) \<and>
                    rows_from_start (sblocks ! s ! j ! k) = int k * W \<and>
                    gather_sequences (slblocks ! s ! j ! k) =
                      [\<lparr>interval_start =
                          interval_start (samples_intervals (samples ! s) ! j) + int k * W,
                        interval_end =
                          interval_start (samples_intervals (samples ! s) ! j) + int k * W +
                          min W (interval_frames (samples_intervals (samples ! s) ! j) - int k * W)\<rparr>]))) \<and>
           (\<forall>m < length (concat sblocks).
              reset_flags initial_tracker (concat (concat sblocks)) !
                length (concat (take m (concat sblocks))))"
proof -
  from plan_sequence_gather_blocks [OF W valid, of "[]" "[]"] obtain sblocks slblocks where
    run: "plan_sequence_gather W samples ([], []) =
            Some (Inr (concat (concat sblocks), concat (concat slblocks)))"
    and l: "length sblocks = length samples" "length slblocks = length samples"
    and ls: "\<And>s. s < length samples \<Longrightarrow>
               length (sblocks ! s) = length (samples_intervals (samples ! s)) \<and>
               length (slblocks ! s) = length (samples_intervals (samples ! s))"
    and blk: "\<And>s j. s < length samples \<Longrightarrow> j < length (samples_intervals (samples ! s)) \<Longrightarrow>
               seq_block W (samples_video_index (samples ! s))
                 (frames_before (samples_intervals (samples ! s)) j)
                 (samples_intervals (samples ! s) ! j)
                 (length (concat (concat (take s sblocks))) + length (concat (take j (sblocks ! s))))
                 (sblocks ! s ! j) (slblocks ! s ! j)"
    by auto
  have ok: "\<And>s j. s < length samples \<Longrightarrow> j < length (samples_intervals (samples ! s)) \<Longrightarrow>
              interval_start (samples_intervals (samples ! s) ! j) <
              interval_end (samples_intervals (samples ! s) ! j) \<and>
              0 \<le> frames_before (samples_intervals (samples ! s)) j"
  proof -
    fix s j assume s: "s < length samples" and j: "j < length (samples_intervals (samples ! s))"
    from s valid have "frame_sequence (samples ! s)" by simp
    then have iv: "\<forall>iv \<in> set (samples_intervals (samples ! s)). frame_interval iv"
      by (simp add: frame_sequence_def)
    with j have "frame_interval (samples_intervals (samples ! s) ! j)" by simp
    moreover from frames_before_le [OF iv, of 0 j]
    have "0 \<le> frames_before (samples_intervals (samples ! s)) j" by simp
    ultimately show "interval_start (samples_intervals (samples ! s) ! j) <
              interval_end (samples_intervals (samples ! s) ! j) \<and>
              0 \<le> frames_before (samples_intervals (samples ! s)) j"
      by (simp add: frame_interval_def)
  qed
  have shape: "\<And>s j. s < length samples \<Longrightarrow> j < length (samples_intervals (samples ! s)) \<Longrightarrow>
              sblocks ! s ! j \<noteq> [] \<and> next_item_id (last (sblocks ! s ! j)) = - 1 \<and>
              0 \<le> item_id (hd (sblocks ! s ! j))"
    using seq_block_shape [OF blk] ok by blast
  have heads: "\<forall>b \<in> set (concat sblocks).
                 b \<noteq> [] \<and> next_item_id (last b) = - 1 \<and> 0 \<le> item_id (hd b)"
  proof
    fix b assume "b \<in> set (concat sblocks)"
    then obtain bs where "bs \<in> set sblocks" "b \<in> set bs" by auto
    then obtain s j where "s < length sblocks" "bs = sblocks ! s" "j < length bs" "b = bs ! j"
      by (metis in_set_conv_nth)
    with shape [of s j] l ls [of s]
    show "b \<noteq> [] \<and> next_item_id (last b) = - 1 \<and> 0 \<le> item_id (hd b)" by simp
  qed
  have resets: "\<forall>m < length (concat sblocks).
              reset_flags initial_tracker (concat (concat sblocks)) !
                length (concat (take m (concat sblocks)))"
    using reset_at_block_heads [OF heads] by (simp add: initial_tracker_def)
  have detail: "\<And>s j. s < length samples \<Longrightarrow> j < length (samples_intervals (samples ! s)) \<Longrightarrow>
                 length (slblocks ! s ! j) = length (sblocks ! s ! j) \<and>
                 sblocks ! s ! j \<noteq> [] \<and>
                 (\<forall>k. k < length (sblocks ! s ! j) \<longleftrightarrow>
                        int k * W < interval_frames (samples_intervals (samples ! s) ! j)) \<and>
                 (\<forall>k < length (sblocks ! s ! j).
                    video_index (sblocks ! s ! j ! k) = samples_video_index (samples ! s) \<and>
                    item_id (sblocks ! s ! j ! k) =
                      frames_before (samples_intervals (samples ! s)) j + int k * W \<and>
                    next_item_id (sblocks ! s ! j ! k) =
                      (if Suc k = length (sblocks ! s ! j) then - 1
                       else item_id (sblocks ! s ! j ! k) + W) \<and>
                    rows_from_start (sblocks ! s ! j ! k) = int k * W \<and>
                    gather_sequences (slblocks ! s ! j ! k) =
                      [\<lparr>interval_start =
                          interval_start (samples_intervals (samples ! s) ! j) + int k * W,
                        interval_end =
                          interval_start (samples_intervals (samples ! s) ! j) + int k * W +
                          min W (interval_frames (samples_intervals (samples ! s) ! j) - int k * W)\<rparr>])"
  proof -
    fix s j assume sj: "s < length samples" "j < length (samples_intervals (samples ! s))"
    let ?ws = "sblocks ! s ! j" and ?ls = "slblocks ! s ! j"
    let ?iv = "samples_intervals (samples ! s) ! j"
    let ?t = "frames_before (samples_intervals (samples ! s)) j"
    let ?vi = "samples_video_index (samples ! s)"
    from blk [OF sj] have len: "length ?ls = length ?ws"
      and cnt: "\<And>k. k < length ?ws \<longleftrightarrow> int k * W < interval_frames ?iv"
      and nth: "\<And>k. k < length ?ws \<Longrightarrow> ?ws ! k = seq_item W ?vi ?t (interval_frames ?iv) k"
      and lnth: "\<And>k. k < length ?ws \<Longrightarrow> \<exists>idx. ?ls ! k = seq_load W ?iv k idx"
      unfolding seq_block_def by blast+
    have items: "\<And>k. k < length ?ws \<Longrightarrow>
                    video_index (?ws ! k) = ?vi \<and> item_id (?ws ! k) = ?t + int k * W \<and>
                    next_item_id (?ws ! k) =
                      (if Suc k = length ?ws then - 1 else item_id (?ws ! k) + W) \<and>
                    rows_from_start (?ws ! k) = int k * W \<and>
                    gather_sequences (?ls ! k) =
                      [\<lparr>interval_start = interval_start ?iv + int k * W,
                        interval_end = interval_start ?iv + int k * W +
                          min W (interval_frames ?iv - int k * W)\<rparr>]"
    proof -
      fix k assume k: "k < length ?ws"
      have "Suc k = length ?ws \<longleftrightarrow> \<not> Suc k < length ?ws" using k by linarith
      also have "\<dots> \<longleftrightarrow> \<not> (int k + 1) * W < interval_frames ?iv"
        using cnt [of "Suc k"] by (simp add: algebra_simps)
      finally have last: "Suc k = length ?ws \<longleftrightarrow> \<not> (int k + 1) * W < interval_frames ?iv" .
      from lnth [OF k] obtain idx where "?ls ! k = seq_load W ?iv k idx" by blast
      with nth [OF k] last show "video_index (?ws ! k) = ?vi \<and> item_id (?ws ! k) = ?t + int k * W \<and>
                    next_item_id (?ws ! k) =
                      (if Suc k = length ?ws then - 1 else item_id (?ws ! k) + W) \<and>
                    rows_from_start (?ws ! k) = int k * W \<and>
                    gather_sequences (?ls ! k) =
                      [\<lparr>interval_start = interval_start ?iv + int k * W,
                        interval_end = interval_start ?iv + int k * W +
                          min W (interval_frames ?iv - int k * W)\<rparr>]"
        by (simp add: seq_item_def seq_load_def new_load_entry_def algebra_simps)
    qed
    from len cnt items shape [OF sj]
    show "length ?ls = length ?ws \<and> ?ws \<noteq> [] \<and>
          (\<forall>k. k < length ?ws \<longleftrightarrow> int k * W < interval_frames ?iv) \<and>
          (\<forall>k < length ?ws.
                    video_index (?ws ! k) = ?vi \<and> item_id (?ws ! k) = ?t + int k * W \<and>
                    next_item_id (?ws ! k) =
                      (if Suc k = length ?ws then - 1 else item_id (?ws ! k) + W) \<and>
                    rows_from_start (?ws ! k) = int k * W \<and>
                    gather_sequences (?ls ! k) =
                      [\<lparr>interval_start = interval_start ?iv + int k * W,
                        interval_end = interval_start ?iv + int k * W +
                          min W (interval_frames ?iv - int k * W)\<rparr>])"
      by blast
  qed
  from run l ls detail resets show ?thesis
    by (intro exI [of _ sblocks] exI [of _ slblocks]) blast
qed

lemma plan_sequence_gather_member:
  assumes W: "0 < W" and valid: "\<forall>s \<in> set samples. frame_sequence s"
    and plan: "plan_sequence_gather W samples ([], []) = Some (Inr (wis, les))"
    and x: "x \<in> set wis"
  obtains s j k where "s < length samples" "j < length (samples_intervals (samples ! s))"
    "int k * W < interval_frames (samples_intervals (samples ! s) ! j)"
    "x = seq_item W (samples_video_index (samples ! s))
           (frames_before (samples_intervals (samples ! s)) j)
           (interval_frames (samples_intervals (samples ! s) ! j)) k"
proof -
  from plan_sequence_gather_blocks [OF W valid, of "[]" "[]"] plan
  obtain sblocks slblocks where
    wis: "wis = concat (concat sblocks)"
    and l: "length sblocks = length samples"
    and ls: "\<And>s. s < length samples \<Longrightarrow>
               length (sblocks ! s) = length (samples_intervals (samples ! s))"
    and blk: "\<And>s j. s < length samples \<Longrightarrow> j < length (samples_intervals (samples ! s)) \<Longrightarrow>
               seq_block W (samples_video_index (samples ! s))
                 (frames_before (samples_intervals (samples ! s)) j)
                 (samples_intervals (samples ! s) ! j)
                 (length (concat (concat (take s sblocks))) + length (concat (take j (sblocks ! s))))
                 (sblocks ! s ! j) (slblocks ! s ! j)"
    by auto
  from x wis have "x \<in> set (concat (concat sblocks))" by simp
  then obtain s j k where s: "s < length sblocks" and j: "j < length (sblocks ! s)"
    and k: "k < length (sblocks ! s ! j)" and xe: "x = sblocks ! s ! j ! k"
    by (rule in_concat_concat)
  from s l have s': "s < length samples" by simp
  with j ls have j': "j < length (samples_intervals (samples ! s))" by simp
  from blk [OF s' j'] k xe
  have "int k * W < interval_frames (samples_intervals (samples ! s) ! j)"
    and "x = seq_item W (samples_video_index (samples ! s))
           (frames_before (samples_intervals (samples ! s)) j)
           (interval_frames (samples_intervals (samples ! s) ! j)) k"
    by (simp_all add: seq_block_def)
  with s' j' show ?thesis using that by blast
qed

lemma s4_frame_sequences: "\<forall>s \<in> set s4_samples. frame_sequence s"
  by (simp add: s4_samples_def frame_sequence_def frame_interval_def interval_frames_def)

lemma s4_plan:
  "map_option (map_sum id (\<lambda>p. map (\<lambda>w. (item_id w, next_item_id w, rows_from_start w)) (fst p)))
     (plan_sequence_gather 10 s4_samples ([], [])) =
   Some (Inr [(0, - 1, 0), (10, 20, 0), (20, 30, 10), (30, - 1, 20)])"
  by code_simp

section \<open>Configure and reset policy\<close>

lemma configure_and_reset_closed:
  "configure_and_reset nc nr md e0 evs =
     (map (\<lambda>ev. (if nr then (\<lambda>c. c \<lparr>state := reset_fn c (state c)\<rparr>) else id)
                   ((if nc then (\<lambda>c. c \<lparr>state := configure_fn c md (state c)\<rparr>) else id) ev)) evs,
      concat (map (\<lambda>e. (if nc then [Configure e] else []) @ (if nr then [Reset e] else []))
                  [e0..<e0 + length evs]))"
proof (induction evs arbitrary: e0)
  case Nil
  show ?case by simp
next
  case (Cons ev evs)
  have "[e0..<e0 + length (ev # evs)] = e0 # [Suc e0..<Suc e0 + length evs]"
    by (subst upt_rec) simp
  with Cons [of "Suc e0"] show ?case by (simp add: Let_def)
qed

lemma distinct_calls:
  "distinct es \<Longrightarrow>
   distinct (concat (map (\<lambda>e. (if nc then [Configure e] else []) @ (if nr then [Reset e] else [])) es))"
  by (induction es) (auto split: if_splits)

text \<open>
  Claim C4. At the start of an entry, \<open>configure\<close> is called on every evaluator exactly
  when the video index of the entry differs from the tracked one, and \<open>reset\<close> on every
  evaluator exactly when that holds or the \<open>item_id\<close> of the entry differs from the tracked
  \<open>next_item_id\<close>; no call is made twice, and the evaluators' states are the result of
  these calls. Afterwards the tracked pair is the entry's video index and \<open>next_item_id\<close>
  (for a \<open>next_item_id\<close> that fits the 32-bit variable which tracks it).
\<close>

theorem begin_entry_policy:
  assumes "in_i32 (next_item_id work_item)"
  shows "case begin_entry md work_item tr evs of (evs', calls, tr') \<Rightarrow>
           (\<forall>e < length evs.
              (Configure e \<in> set calls) = (video_index work_item \<noteq> last_video_index tr)) \<and>
           (\<forall>e < length evs.
              (Reset e \<in> set calls) =
                (video_index work_item \<noteq> last_video_index tr \<or>
                 item_id work_item \<noteq> last_next_item_id tr)) \<and>
           (\<forall>c \<in> set calls. \<exists>e < length evs. c = Configure e \<or> c = Reset e) \<and>
           distinct calls \<and>
           length evs' = length evs \<and>
           (\<forall>e < length evs.
              state (evs' ! e) =
                (if needs_reset work_item tr then reset_fn (evs ! e) else id)
                  ((if needs_configure work_item tr then configure_fn (evs ! e) md else id)
                     (state (evs ! e)))) \<and>
           tr' = \<lparr>last_video_index = video_index work_item,
                  last_next_item_id = next_item_id work_item\<rparr>"
proof -
  let ?nc = "needs_configure work_item tr" and ?nr = "needs_reset work_item tr"
  let ?f = "\<lambda>e. (if ?nc then [Configure e] else []) @ (if ?nr then [Reset e] else [])"
  define calls where "calls = concat (map ?f [0..<length evs])"
  define evs' where "evs' = map (\<lambda>ev. (if ?nr then (\<lambda>c. c \<lparr>state := reset_fn c (state c)\<rparr>) else id)
                   ((if ?nc then (\<lambda>c. c \<lparr>state := configure_fn c md (state c)\<rparr>) else id) ev)) evs"
  have be: "begin_entry md work_item tr evs = (evs', calls, advance_tracker work_item)"
    by (simp add: begin_entry_def configure_and_reset_closed calls_def evs'_def)
  have mem: "\<And>c. c \<in> set calls \<longleftrightarrow> (\<exists>e < length evs. c \<in> set (?f e))"
    unfolding calls_def by (simp only: set_concat set_map) (auto simp del: set_append)
  have conf: "\<forall>e < length evs. (Configure e \<in> set calls) = (video_index work_item \<noteq> last_video_index tr)"
    unfolding mem by (auto simp: needs_configure_def)
  have res: "\<forall>e < length evs. (Reset e \<in> set calls) =
                (video_index work_item \<noteq> last_video_index tr \<or> item_id work_item \<noteq> last_next_item_id tr)"
    unfolding mem by (auto simp: needs_reset_def)
  have only: "\<forall>c \<in> set calls. \<exists>e < length evs. c = Configure e \<or> c = Reset e"
  proof
    fix c assume "c \<in> set calls"
    with mem obtain e where "e < length evs" "c \<in> set (?f e)" by blast
    then show "\<exists>e < length evs. c = Configure e \<or> c = Reset e"
      by (auto split: if_splits)
  qed
  have dist: "distinct calls"
    unfolding calls_def by (rule distinct_calls) simp
  have st: "\<forall>e < length evs. state (evs' ! e) =
                (if ?nr then reset_fn (evs ! e) else id)
                  ((if ?nc then configure_fn (evs ! e) md else id) (state (evs ! e)))"
    by (simp add: evs'_def)
  have tr: "advance_tracker work_item = \<lparr>last_video_index = video_index work_item,
                  last_next_item_id = next_item_id work_item\<rparr>"
    using assms by (simp add: advance_tracker_def to_i32_id)
  from conf res only dist st tr show ?thesis
    unfolding be by (simp add: evs'_def)
qed

theorem begin_entry_policy_witness:
  "case begin_entry (video_of_frames 40) s5_item initial_tracker [copy_evaluator GPU 0, copy_evaluator CPU 0] of (evs', calls, tr') \<Rightarrow>
           (\<forall>e < length [copy_evaluator GPU 0, copy_evaluator CPU 0].
              (Configure e \<in> set calls) = (video_index s5_item \<noteq> last_video_index initial_tracker)) \<and>
           (\<forall>e < length [copy_evaluator GPU 0, copy_evaluator CPU 0].
              (Reset e \<in> set calls) =
                (video_index s5_item \<noteq> last_video_index initial_tracker \<or>
                 item_id s5_item \<noteq> last_next_item_id initial_tracker)) \<and>
           (\<forall>c \<in> set calls. \<exists>e < length [copy_evaluator GPU 0, copy_evaluator CPU 0]. c = Configure e \<or> c = Reset e) \<and>
           distinct calls \<and>
           length evs' = length [copy_evaluator GPU 0, copy_evaluator CPU 0] \<and>
           (\<forall>e < length [copy_evaluator GPU 0, copy_evaluator CPU 0].
              state (evs' ! e) =
                (if needs_reset s5_item initial_tracker then reset_fn ([copy_evaluator GPU 0, copy_evaluator CPU 0] ! e) else id)
                  ((if needs_configure s5_item initial_tracker then configure_fn ([copy_evaluator GPU 0, copy_evaluator CPU 0] ! e) (video_of_frames 40) else id)
                     (state ([copy_evaluator GPU 0, copy_evaluator CPU 0] ! e)))) \<and>
           tr' = \<lparr>last_video_index = video_index s5_item,
                  last_next_item_id = next_item_id s5_item\<rparr>"
  by (rule begin_entry_policy) (simp add: in_i32_def s5_item_def)

lemma begin_entry_example:
  "fst (snd (begin_entry (video_of_frames 40) s5_item
      \<lparr>last_video_index = 0, last_next_item_id = 16\<rparr> [copy_evaluator GPU 0, copy_evaluator CPU 0])) = [] \<and>
   fst (snd (begin_entry (video_of_frames 40) s5_item
      \<lparr>last_video_index = 0, last_next_item_id = 0\<rparr> [copy_evaluator GPU 0, copy_evaluator CPU 0])) =
     [Reset 0, Reset 1] \<and>
   fst (snd (begin_entry (video_of_frames 40) s5_item
      initial_tracker [copy_evaluator GPU 0, copy_evaluator CPU 0])) =
     [Configure 0, Reset 0, Configure 1, Reset 1]"
  by code_simp

section \<open>Resets at the boundaries of intervals\<close>

lemma begin_entry_calls:
  "fst (snd (begin_entry md work_item tr evs)) =
     concat (map (\<lambda>e. (if needs_configure work_item tr then [Configure e] else []) @
                       (if needs_reset work_item tr then [Reset e] else []))
                 [0..<length evs])"
  by (simp add: begin_entry_def configure_and_reset_closed)

lemma begin_entry_reset_calls:
  assumes "e < length evs"
  shows "Reset e \<in> set (fst (snd (begin_entry md work_item tr evs))) \<longleftrightarrow>
         needs_reset work_item tr"
  using assms unfolding begin_entry_calls by (simp only: set_concat set_map) auto

text \<open>
  When no two per-video sequences name the same video, every worker resets its evaluators
  at the first item of every interval, whatever it processed before: the tracked pair is
  the initial one or the one left by some item of the plan.
\<close>

lemma reset_at_interval_heads:
  assumes W: "0 < W" and valid: "\<forall>s \<in> set samples. frame_sequence s"
    and videos: "distinct (map samples_video_index samples)"
    and plan: "plan_sequence_gather W samples ([], []) = Some (Inr (wis, les))"
    and h: "h \<in> set wis" "rows_from_start h = 0"
    and tr: "tr = initial_tracker \<or> (\<exists>p \<in> set wis. tr = advance_tracker p)"
    and e: "e < length evs"
  shows "Reset e \<in> set (fst (snd (begin_entry md h tr evs)))"
proof -
  from plan_sequence_gather_member [OF W valid plan h(1)] obtain s j k where
    s: "s < length samples" and j: "j < length (samples_intervals (samples ! s))"
    and k: "int k * W < interval_frames (samples_intervals (samples ! s) ! j)"
    and he: "h = seq_item W (samples_video_index (samples ! s))
           (frames_before (samples_intervals (samples ! s)) j)
           (interval_frames (samples_intervals (samples ! s) ! j)) k"
    by blast
  from he h(2) W have "k = 0" by (simp add: seq_item_def)
  note he = he [unfolded this]
  let ?ivs = "samples_intervals (samples ! s)"
  from s valid have fs: "frame_sequence (samples ! s)" by simp
  then have iv: "\<forall>iv \<in> set ?ivs. frame_interval iv"
    and bound: "sum_list (map interval_frames ?ivs) < 2 ^ 31"
    by (simp_all add: frame_sequence_def)
  have id0: "0 \<le> item_id h"
    using frames_before_le [OF iv, of 0 j] by (simp add: he seq_item_def)
  have "needs_reset h tr"
  proof (cases "tr = initial_tracker")
    case True
    with id0 show ?thesis by (auto simp: needs_reset_def initial_tracker_def)
  next
    case False
    with tr obtain p where p: "p \<in> set wis" and trp: "tr = advance_tracker p" by blast
    from plan_sequence_gather_member [OF W valid plan p] obtain s' j' k' where
      s': "s' < length samples" and j': "j' < length (samples_intervals (samples ! s'))"
      and k': "int k' * W < interval_frames (samples_intervals (samples ! s') ! j')"
      and pe: "p = seq_item W (samples_video_index (samples ! s'))
           (frames_before (samples_intervals (samples ! s')) j')
           (interval_frames (samples_intervals (samples ! s') ! j')) k'"
      by blast
    show ?thesis
    proof (cases "s' = s")
      case True
      from seq_item_next_not_head [OF W iv bound j j' [unfolded True] k' [unfolded True],
          of "samples_video_index (samples ! s)"]
      show ?thesis
        unfolding trp he pe True
        by (auto simp: needs_reset_def advance_tracker_def)
    next
      case False
      with videos s s' have "samples_video_index (samples ! s') \<noteq> samples_video_index (samples ! s)"
        by (simp add: distinct_conv_nth)
      then show ?thesis
        unfolding trp he pe
        by (auto simp: needs_reset_def advance_tracker_def seq_item_def)
    qed
  qed
  with e show ?thesis by (simp add: begin_entry_reset_calls)
qed

text \<open>
  Claim C5 says that the planner for \<open>SequenceGather\<close> sampling cuts every interval into
  chunks of at most \<open>WORK_ITEM_SIZE\<close> frames, ends every interval with
  \<open>next_item_id = -1\<close> and counts \<open>item_id\<close> over the per-video sequence, and that as a
  consequence the evaluator chain performs a \<open>reset()\<close> at the boundary of every
  interval. The plan is as the claim says, and a worker that processes the whole plan in
  order, or any worker when no two sequences are of the same video, resets at the first
  item of every interval. In general the consequence does not follow. \<open>item_id\<close>
  starts again at 0 for every per-video sequence, and a worker compares only the video and
  the \<open>item_id\<close> of an entry with what the entry before it left. For two sequences of
  video 0, \<open>[0, 30)\<close> and \<open>[100, 110), [200, 210)\<close>, and a work item size of 10, work
  item 4 is the only item of the interval \<open>[200, 210)\<close> and has \<open>item_id = 10\<close>, the
  \<open>next_item_id\<close> of work item 0. A worker that receives the entries of the work items 0
  and 4 configures and resets its evaluator for the first and calls nothing for the
  second: the evaluator goes from frame 9 to frame 200 without a \<open>reset()\<close>.
\<close>

theorem sequence_gather_missed_reset:
  "map_option (map_sum id (\<lambda>p. map2
       (\<lambda>w l. (video_index w, item_id w, next_item_id w, rows_from_start w,
               map (\<lambda>iv. (interval_start iv, interval_end iv)) (gather_sequences l)))
       (fst p) (snd p)))
     (plan_sequence_gather 10 shared_video_samples ([], [])) =
   Some (Inr [(0, 0, 10, 0, [(0, 10)]), (0, 10, 20, 10, [(10, 20)]),
              (0, 20, - 1, 20, [(20, 30)]), (0, 0, - 1, 0, [(100, 110)]),
              (0, 10, - 1, 0, [(200, 210)])]) \<and>
   needs_reset (work_items shared_video_args ! 4)
     (advance_tracker (work_items shared_video_args ! 0)) = False \<and>
   map_option (map_sum id (map entry_calls))
     (evaluate_thread shared_video_args [copy_evaluator CPU 0] shared_video_queue) =
   Some (Inr [[Configure 0, Reset 0], []])"
proof -
  have 1: "map_option (map_sum id (\<lambda>p. map2
       (\<lambda>w l. (video_index w, item_id w, next_item_id w, rows_from_start w,
               map (\<lambda>iv. (interval_start iv, interval_end iv)) (gather_sequences l)))
       (fst p) (snd p)))
     (plan_sequence_gather 10 shared_video_samples ([], [])) =
   Some (Inr [(0, 0, 10, 0, [(0, 10)]), (0, 10, 20, 10, [(10, 20)]),
              (0, 20, - 1, 20, [(20, 30)]), (0, 0, - 1, 0, [(100, 110)]),
              (0, 10, - 1, 0, [(200, 210)])])"
    by code_simp
  have 2: "needs_reset (work_items shared_video_args ! 4)
     (advance_tracker (work_items shared_video_args ! 0)) = False"
    by code_simp
  have 3: "map_option (map_sum id (map entry_calls))
     (evaluate_thread shared_video_args [copy_evaluator CPU 0] shared_video_queue) =
   Some (Inr [[Configure 0, Reset 0], []])"
    by code_simp
  from 1 2 3 show ?thesis by (intro conjI)
qed

section \<open>Warmup trimming\<close>

lemma delete_warmup_step:
  "w < warmup_frames \<Longrightarrow> delete_warmup t d column w warmup_frames =
     (if 0 \<le> w \<and> nat w < length column
      then (case delete_warmup t d column (w + 1) warmup_frames of
              Inl e \<Rightarrow> Inl e
            | Inr released \<Rightarrow> Inr ((t, d, column ! nat w) # released))
      else Inl OutOfRange)"
  by (subst delete_warmup.simps) simp

lemma delete_warmup_stop:
  "\<not> w < warmup_frames \<Longrightarrow> delete_warmup t d column w warmup_frames = Inr []"
  by (subst delete_warmup.simps) simp

lemma move_to_cpu_step:
  "f < batch_size \<Longrightarrow> move_to_cpu t d column sizes f batch_size =
     (if 0 \<le> f \<and> nat f < length column \<and> nat f < length sizes
      then (case move_to_cpu t d (column [nat f := copy_to CPU 0 (column ! nat f) (sizes ! nat f)])
                   sizes (f + 1) batch_size of
              Inl e \<Rightarrow> Inl e
            | Inr (column', released) \<Rightarrow> Inr (column', (t, d, column ! nat f) # released))
      else Inl OutOfRange)"
  by (subst move_to_cpu.simps) (simp add: Let_def)

lemma move_to_cpu_stop:
  "\<not> f < batch_size \<Longrightarrow> move_to_cpu t d column sizes f batch_size = Inr (column, [])"
  by (subst move_to_cpu.simps) simp

lemma delete_warmup_Inr:
  "delete_warmup t d column w warmup_frames = Inr released \<Longrightarrow> 0 \<le> w \<Longrightarrow>
     released = map (\<lambda>b. (t, d, b)) (drop (nat w) (take (nat warmup_frames) column)) \<and>
     (w < warmup_frames \<longrightarrow> warmup_frames \<le> int (length column))"
proof (induction t d column w warmup_frames arbitrary: released rule: delete_warmup.induct)
  case (1 t d column w warmup_frames)
  show ?case
  proof (cases "w < warmup_frames")
    case False
    with "1.prems" show ?thesis by (simp add: delete_warmup_stop)
  next
    case True
    with "1.prems" have inb: "nat w < length column"
      by (simp add: delete_warmup_step split: if_splits)
    with True "1.prems" obtain rest where
      rest: "delete_warmup t d column (w + 1) warmup_frames = Inr rest"
      and rel: "released = (t, d, column ! nat w) # rest"
      by (auto simp: delete_warmup_step split: if_splits sum.splits)
    from "1.IH" [OF True _ rest] inb "1.prems"(2)
    have ih: "rest = map (\<lambda>b. (t, d, b)) (drop (nat (w + 1)) (take (nat warmup_frames) column))"
      and bound: "w + 1 < warmup_frames \<longrightarrow> warmup_frames \<le> int (length column)"
      by simp_all
    have le: "warmup_frames \<le> int (length column)"
      using bound True inb by (cases "w + 1 < warmup_frames") auto
    have lt: "nat w < length (take (nat warmup_frames) column)"
      using True inb "1.prems"(2) by simp
    have "drop (nat w) (take (nat warmup_frames) column) =
            take (nat warmup_frames) column ! nat w #
            drop (Suc (nat w)) (take (nat warmup_frames) column)"
      using Cons_nth_drop_Suc [OF lt] by simp
    moreover have "take (nat warmup_frames) column ! nat w = column ! nat w"
      using True "1.prems"(2) by simp
    moreover have "nat (w + 1) = Suc (nat w)" using "1.prems"(2) by simp
    ultimately show ?thesis using rel ih le by simp
  qed
qed

lemma delete_warmup_total:
  "0 \<le> w \<Longrightarrow> warmup_frames \<le> int (length column) \<Longrightarrow>
     \<exists>released. delete_warmup t d column w warmup_frames = Inr released"
proof (induction t d column w warmup_frames rule: delete_warmup.induct)
  case (1 t d column w warmup_frames)
  show ?case
  proof (cases "w < warmup_frames")
    case False
    then show ?thesis by (simp add: delete_warmup_stop)
  next
    case True
    with "1.prems" have inb: "nat w < length column" by linarith
    from "1.IH" [OF True] inb "1.prems" obtain rest where
      "delete_warmup t d column (w + 1) warmup_frames = Inr rest" by auto
    with True inb "1.prems" show ?thesis
      by (simp add: delete_warmup_step)
  qed
qed

lemma move_to_cpu_Inr:
  "move_to_cpu t d column sizes f batch_size = Inr (column', released) \<Longrightarrow> 0 \<le> f \<Longrightarrow>
     length column' = length column \<and>
     (\<forall>i < length column.
        column' ! i = (if nat f \<le> i \<and> int i < batch_size
                       then copy_to CPU 0 (column ! i) (sizes ! i) else column ! i)) \<and>
     released = map (\<lambda>b. (t, d, b)) (drop (nat f) (take (nat batch_size) column)) \<and>
     (f < batch_size \<longrightarrow> batch_size \<le> int (length column))"
proof (induction t d column sizes f batch_size arbitrary: column' released
       rule: move_to_cpu.induct)
  case (1 t d column sizes f batch_size)
  show ?case
  proof (cases "f < batch_size")
    case False
    then have "\<And>i. \<not> (nat f \<le> i \<and> int i < batch_size)" by linarith
    with False "1.prems" show ?thesis by (auto simp: move_to_cpu_stop)
  next
    case True
    with "1.prems" have inb: "nat f < length column" "nat f < length sizes"
      by (simp_all add: move_to_cpu_step split: if_splits)
    let ?dest = "copy_to CPU 0 (column ! nat f) (sizes ! nat f)"
    let ?col = "column [nat f := ?dest]"
    from True "1.prems" inb obtain rest where
      rest: "move_to_cpu t d ?col sizes (f + 1) batch_size = Inr (column', rest)"
      and rel: "released = (t, d, column ! nat f) # rest"
      by (auto simp: move_to_cpu_step split: if_splits sum.splits)
    from "1.IH" [OF True _ refl refl refl rest] inb "1.prems"(2)
    have len: "length column' = length column"
      and nth: "\<And>i. i < length column \<Longrightarrow>
                  column' ! i = (if nat (f + 1) \<le> i \<and> int i < batch_size
                                 then copy_to CPU 0 (?col ! i) (sizes ! i) else ?col ! i)"
      and ih: "rest = map (\<lambda>b. (t, d, b)) (drop (nat (f + 1)) (take (nat batch_size) ?col))"
      and bound: "f + 1 < batch_size \<longrightarrow> batch_size \<le> int (length column)"
      by simp_all
    have suc: "nat (f + 1) = Suc (nat f)" using "1.prems"(2) by simp
    have le: "batch_size \<le> int (length column)"
      using bound True inb by (cases "f + 1 < batch_size") auto
    have nth': "\<forall>i < length column.
        column' ! i = (if nat f \<le> i \<and> int i < batch_size
                       then copy_to CPU 0 (column ! i) (sizes ! i) else column ! i)"
    proof (intro allI impI)
      fix i assume i: "i < length column"
      show "column' ! i = (if nat f \<le> i \<and> int i < batch_size
                       then copy_to CPU 0 (column ! i) (sizes ! i) else column ! i)"
      proof (cases "i = nat f")
        case True
        with nth [OF i] suc i \<open>f < batch_size\<close> "1.prems"(2) show ?thesis by simp
      next
        case False
        with nth [OF i] suc show ?thesis by auto
      qed
    qed
    have lt: "nat f < length (take (nat batch_size) column)"
      using True inb "1.prems"(2) by simp
    have "drop (Suc (nat f)) (take (nat batch_size) ?col) =
          drop (Suc (nat f)) (take (nat batch_size) column)"
      by (simp add: take_update_swap drop_update_cancel)
    moreover have "drop (nat f) (take (nat batch_size) column) =
            column ! nat f # drop (Suc (nat f)) (take (nat batch_size) column)"
      using Cons_nth_drop_Suc [OF lt] True "1.prems"(2) by simp
    ultimately show ?thesis using rel ih len nth' le suc by simp
  qed
qed

lemma move_to_cpu_total:
  "0 \<le> f \<Longrightarrow> batch_size \<le> int (length column) \<Longrightarrow> length sizes = length column \<Longrightarrow>
     \<exists>r. move_to_cpu t d column sizes f batch_size = Inr r"
proof (induction t d column sizes f batch_size rule: move_to_cpu.induct)
  case (1 t d column sizes f batch_size)
  show ?case
  proof (cases "f < batch_size")
    case False
    then show ?thesis by (simp add: move_to_cpu_stop)
  next
    case True
    with "1.prems" have inb: "nat f < length column" by linarith
    from "1.IH" [OF True _ refl refl refl] inb "1.prems" obtain r where
      "move_to_cpu t d (column [nat f := copy_to CPU 0 (column ! nat f) (sizes ! nat f)])
         sizes (f + 1) batch_size = Inr r" by auto
    with True inb "1.prems" show ?thesis
      by (auto simp: move_to_cpu_step split: prod.splits)
  qed
qed

lemma keep_from_Inr:
  "keep_from column warmup_frames = Inr kept \<Longrightarrow>
     0 \<le> warmup_frames \<and> warmup_frames \<le> int (length column) \<and>
     kept = drop (nat warmup_frames) column"
  by (auto simp: keep_from_def split: if_splits)

lemma trim_column_Inr:
  assumes "trim_column lt li ot oi warmup_frames batch_size column sizes = Inr k"
  shows "length sizes = length column \<and> 0 \<le> warmup_frames \<and>
         warmup_frames \<le> int (length column) \<and>
         discarded k = map (\<lambda>b. (lt, li, b)) (take (nat warmup_frames) column) \<and>
         kept_sizes k = drop (nat warmup_frames) sizes \<and>
         length (kept_buffers k) = length column - nat warmup_frames \<and>
         (\<forall>j < length column - nat warmup_frames.
            kept_buffers k ! j =
              (if ot \<noteq> CPU \<and> int (nat warmup_frames + j) < batch_size
               then copy_to CPU 0 (column ! (nat warmup_frames + j))
                      (sizes ! (nat warmup_frames + j))
               else column ! (nat warmup_frames + j))) \<and>
         migrated k =
           (if ot \<noteq> CPU
            then map (\<lambda>b. (ot, oi, b)) (drop (nat warmup_frames) (take (nat batch_size) column))
            else [])"
proof -
  from assms have len: "length sizes = length column"
    by (simp add: trim_column_def split: if_splits)
  from assms len obtain deleted column' moved ks kb where
    del: "delete_warmup lt li column 0 warmup_frames = Inr deleted"
    and mv: "(if ot \<noteq> CPU then move_to_cpu ot oi column sizes warmup_frames batch_size
              else Inr (column, [])) = Inr (column', moved)"
    and k1: "keep_from sizes warmup_frames = Inr ks"
    and k2: "keep_from column' warmup_frames = Inr kb"
    and k: "k = \<lparr>discarded = deleted, migrated = moved, kept_sizes = ks, kept_buffers = kb\<rparr>"
    by (auto simp: trim_column_def split: sum.splits prod.splits)
  from keep_from_Inr [OF k1] len have w: "0 \<le> warmup_frames" "warmup_frames \<le> int (length column)"
    and ks: "ks = drop (nat warmup_frames) sizes" by simp_all
  from delete_warmup_Inr [OF del] have d: "deleted = map (\<lambda>b. (lt, li, b)) (take (nat warmup_frames) column)"
    by simp
  have col': "length column' = length column \<and>
     (\<forall>i < length column.
        column' ! i = (if ot \<noteq> CPU \<and> nat warmup_frames \<le> i \<and> int i < batch_size
                       then copy_to CPU 0 (column ! i) (sizes ! i) else column ! i)) \<and>
     moved = (if ot \<noteq> CPU
              then map (\<lambda>b. (ot, oi, b)) (drop (nat warmup_frames) (take (nat batch_size) column))
              else [])"
  proof (cases "ot = CPU")
    case True
    with mv show ?thesis by simp
  next
    case False
    with mv have "move_to_cpu ot oi column sizes warmup_frames batch_size = Inr (column', moved)"
      by simp
    from move_to_cpu_Inr [OF this w(1)] False show ?thesis by simp
  qed
  from keep_from_Inr [OF k2] have kb: "kb = drop (nat warmup_frames) column'" by simp
  have kbl: "length kb = length column - nat warmup_frames" using kb col' by simp
  have kbn: "\<forall>j < length column - nat warmup_frames.
            kb ! j =
              (if ot \<noteq> CPU \<and> int (nat warmup_frames + j) < batch_size
               then copy_to CPU 0 (column ! (nat warmup_frames + j))
                      (sizes ! (nat warmup_frames + j))
               else column ! (nat warmup_frames + j))"
  proof (intro allI impI)
    fix j assume j: "j < length column - nat warmup_frames"
    then have i: "nat warmup_frames + j < length column" by simp
    have "kb ! j = column' ! (nat warmup_frames + j)" using kb col' i by simp
    with col' i show "kb ! j =
              (if ot \<noteq> CPU \<and> int (nat warmup_frames + j) < batch_size
               then copy_to CPU 0 (column ! (nat warmup_frames + j))
                      (sizes ! (nat warmup_frames + j))
               else column ! (nat warmup_frames + j))" by simp
  qed
  from len w d ks kbl kbn col' show ?thesis unfolding k by simp
qed

lemma trim_columns_step:
  "i < n \<Longrightarrow> trim_columns lt li out w b i n =
     (if i < length (io_buffers out) \<and> i < length (io_sizes out)
      then (case trim_column lt li (io_type out) (io_device out) w b
                   (io_buffers out ! i) (io_sizes out ! i) of
              Inl e \<Rightarrow> Inl e
            | Inr kept \<Rightarrow>
                (case trim_columns lt li out w b (Suc i) n of
                   Inl e \<Rightarrow> Inl e
                 | Inr rest \<Rightarrow> Inr (kept # rest)))
      else Inl OutOfRange)"
  by (subst trim_columns.simps) simp

lemma trim_columns_stop: "\<not> i < n \<Longrightarrow> trim_columns lt li out w b i n = Inr []"
  by (subst trim_columns.simps) simp

lemma trim_columns_Inr:
  "trim_columns lt li out w b i n = Inr kept \<Longrightarrow>
     length kept = n - i \<and>
     (\<forall>j < n - i. i + j < length (io_buffers out) \<and> i + j < length (io_sizes out) \<and>
        trim_column lt li (io_type out) (io_device out) w b
          (io_buffers out ! (i + j)) (io_sizes out ! (i + j)) = Inr (kept ! j))"
proof (induction lt li out w b i n arbitrary: kept rule: trim_columns.induct)
  case (1 lt li out w b i n)
  show ?case
  proof (cases "i < n")
    case False
    with "1.prems" show ?thesis by (simp add: trim_columns_stop)
  next
    case True
    with "1.prems" have inb: "i < length (io_buffers out)" "i < length (io_sizes out)"
      by (simp_all add: trim_columns_step split: if_splits)
    with True "1.prems" obtain k rest where
      k: "trim_column lt li (io_type out) (io_device out) w b
            (io_buffers out ! i) (io_sizes out ! i) = Inr k"
      and rest: "trim_columns lt li out w b (Suc i) n = Inr rest"
      and kept: "kept = k # rest"
      by (auto simp: trim_columns_step split: sum.splits)
    from "1.IH" [OF True _ k rest] inb
    have len: "length rest = n - Suc i"
      and nth: "\<And>j. j < n - Suc i \<Longrightarrow>
                  Suc i + j < length (io_buffers out) \<and> Suc i + j < length (io_sizes out) \<and>
                  trim_column lt li (io_type out) (io_device out) w b
                    (io_buffers out ! (Suc i + j)) (io_sizes out ! (Suc i + j)) = Inr (rest ! j)"
      by simp_all
    have "\<forall>j < n - i. i + j < length (io_buffers out) \<and> i + j < length (io_sizes out) \<and>
        trim_column lt li (io_type out) (io_device out) w b
          (io_buffers out ! (i + j)) (io_sizes out ! (i + j)) = Inr (kept ! j)"
    proof (intro allI impI)
      fix j assume j: "j < n - i"
      show "i + j < length (io_buffers out) \<and> i + j < length (io_sizes out) \<and>
        trim_column lt li (io_type out) (io_device out) w b
          (io_buffers out ! (i + j)) (io_sizes out ! (i + j)) = Inr (kept ! j)"
      proof (cases j)
        case 0 with inb k kept show ?thesis by simp
      next
        case (Suc j')
        with j have "j' < n - Suc i" by simp
        from nth [OF this] Suc kept show ?thesis by simp
      qed
    qed
    with len kept True show ?thesis by simp
  qed
qed

lemma evaluate_batch_Inr:
  assumes "evaluate_batch args locals work_item reset work_entry evs current_input total_inputs =
             Inr (evs', r)"
  shows "\<exists>ob os out.
           slice_columns (buffers work_entry) current_input
             (current_input + min total_inputs (WORK_ITEM_SIZE args)) = Inr ob \<and>
           slice_columns (buffer_sizes work_entry) current_input
             (current_input + min total_inputs (WORK_ITEM_SIZE args)) = Inr os \<and>
           run_evaluators (video_decode_item work_entry) 0 evs
             \<lparr>io_names = column_names work_entry, io_buffers = ob, io_sizes = os,
              io_type = buffer_type work_entry, io_device = buffer_device_id work_entry\<rparr>
             (min total_inputs (WORK_ITEM_SIZE args)) =
             Inr (evs', out, batch_rows r, batch_released r) \<and>
           trim_columns (last_evaluator_device_type locals) (last_evaluator_device_id locals) out
             (warmup_frames_of (last_evaluator_group args) reset (warmup_count args)
                (rows_from_start work_item) current_input (batch_rows r))
             (batch_rows r) 0 (last_evaluator_num_columns locals) = Inr (batch_kept r)"
  using assms
  by (auto simp: evaluate_batch_def Let_def split: sum.splits prod.splits)

text \<open>
  Claim C2. When a batch of an evaluator chain worker succeeds, every column of the last
  evaluator's output loses exactly its first \<open>w\<close> rows, which are released on the last
  evaluator's device, and keeps the remainder (as copies in CPU memory when the output
  is on another device), where \<open>w\<close> is
  \<open>min batch_size (max 0 (min warmup_count rows_from_start - current_input))\<close> in the last
  factory group for an entry that required a reset, and zero in all other cases.
\<close>

theorem warmup_trimming:
  assumes "evaluate_batch args locals work_item reset work_entry evs current_input total_inputs =
             Inr (evs', r)"
  shows "\<exists>ob os out w.
           slice_columns (buffers work_entry) current_input
             (current_input + min total_inputs (WORK_ITEM_SIZE args)) = Inr ob \<and>
           slice_columns (buffer_sizes work_entry) current_input
             (current_input + min total_inputs (WORK_ITEM_SIZE args)) = Inr os \<and>
           run_evaluators (video_decode_item work_entry) 0 evs
             \<lparr>io_names = column_names work_entry, io_buffers = ob, io_sizes = os,
              io_type = buffer_type work_entry, io_device = buffer_device_id work_entry\<rparr>
             (min total_inputs (WORK_ITEM_SIZE args)) =
             Inr (evs', out, batch_rows r, batch_released r) \<and>
           w = (if last_evaluator_group args \<and> reset
                then nat (min (batch_rows r)
                            (max 0 (min (warmup_count args) (rows_from_start work_item) -
                                    current_input)))
                else 0) \<and>
           length (batch_kept r) = last_evaluator_num_columns locals \<and>
           (\<forall>i < last_evaluator_num_columns locals.
              i < length (io_buffers out) \<and> w \<le> length (io_buffers out ! i) \<and>
              discarded (batch_kept r ! i) =
                map (\<lambda>b. (last_evaluator_device_type locals, last_evaluator_device_id locals, b))
                  (take w (io_buffers out ! i)) \<and>
              kept_sizes (batch_kept r ! i) = drop w (io_sizes out ! i) \<and>
              length (kept_buffers (batch_kept r ! i)) = length (io_buffers out ! i) - w \<and>
              (\<forall>j < length (io_buffers out ! i) - w.
                 kept_buffers (batch_kept r ! i) ! j =
                   (if io_type out \<noteq> CPU \<and> int (w + j) < batch_rows r
                    then copy_to CPU 0 (io_buffers out ! i ! (w + j)) (io_sizes out ! i ! (w + j))
                    else io_buffers out ! i ! (w + j))))"
proof -
  let ?wf = "warmup_frames_of (last_evaluator_group args) reset (warmup_count args)
                (rows_from_start work_item) current_input (batch_rows r)"
  let ?n = "last_evaluator_num_columns locals"
  from evaluate_batch_Inr [OF assms] obtain ob os out where
    s1: "slice_columns (buffers work_entry) current_input
             (current_input + min total_inputs (WORK_ITEM_SIZE args)) = Inr ob"
    and s2: "slice_columns (buffer_sizes work_entry) current_input
             (current_input + min total_inputs (WORK_ITEM_SIZE args)) = Inr os"
    and run: "run_evaluators (video_decode_item work_entry) 0 evs
             \<lparr>io_names = column_names work_entry, io_buffers = ob, io_sizes = os,
              io_type = buffer_type work_entry, io_device = buffer_device_id work_entry\<rparr>
             (min total_inputs (WORK_ITEM_SIZE args)) =
             Inr (evs', out, batch_rows r, batch_released r)"
    and trim: "trim_columns (last_evaluator_device_type locals) (last_evaluator_device_id locals)
             out ?wf (batch_rows r) 0 ?n = Inr (batch_kept r)"
    by blast
  from trim_columns_Inr [OF trim] have len: "length (batch_kept r) = ?n"
    and col: "\<And>i. i < ?n \<Longrightarrow> i < length (io_buffers out) \<and>
        trim_column (last_evaluator_device_type locals) (last_evaluator_device_id locals)
          (io_type out) (io_device out) ?wf (batch_rows r)
          (io_buffers out ! i) (io_sizes out ! i) = Inr (batch_kept r ! i)"
    by simp_all
  define w where "w = nat ?wf"
  have wf: "w = (if last_evaluator_group args \<and> reset
                then nat (min (batch_rows r)
                            (max 0 (min (warmup_count args) (rows_from_start work_item) -
                                    current_input)))
                else 0)"
    by (simp add: w_def warmup_frames_of_def Let_def)
  have cols: "\<forall>i < ?n.
              i < length (io_buffers out) \<and> w \<le> length (io_buffers out ! i) \<and>
              discarded (batch_kept r ! i) =
                map (\<lambda>b. (last_evaluator_device_type locals, last_evaluator_device_id locals, b))
                  (take w (io_buffers out ! i)) \<and>
              kept_sizes (batch_kept r ! i) = drop w (io_sizes out ! i) \<and>
              length (kept_buffers (batch_kept r ! i)) = length (io_buffers out ! i) - w \<and>
              (\<forall>j < length (io_buffers out ! i) - w.
                 kept_buffers (batch_kept r ! i) ! j =
                   (if io_type out \<noteq> CPU \<and> int (w + j) < batch_rows r
                    then copy_to CPU 0 (io_buffers out ! i ! (w + j))
                           (io_sizes out ! i ! (w + j))
                    else io_buffers out ! i ! (w + j)))"
  proof (intro allI impI)
    fix i assume i: "i < ?n"
    from col [OF i] have inb: "i < length (io_buffers out)"
      and tc: "trim_column (last_evaluator_device_type locals) (last_evaluator_device_id locals)
          (io_type out) (io_device out) ?wf (batch_rows r)
          (io_buffers out ! i) (io_sizes out ! i) = Inr (batch_kept r ! i)" by simp_all
    note tci = trim_column_Inr [OF tc, folded w_def]
    from tci have "w \<le> length (io_buffers out ! i)" unfolding w_def by linarith
    with tci inb
    show "i < length (io_buffers out) \<and> w \<le> length (io_buffers out ! i) \<and>
              discarded (batch_kept r ! i) =
                map (\<lambda>b. (last_evaluator_device_type locals, last_evaluator_device_id locals, b))
                  (take w (io_buffers out ! i)) \<and>
              kept_sizes (batch_kept r ! i) = drop w (io_sizes out ! i) \<and>
              length (kept_buffers (batch_kept r ! i)) = length (io_buffers out ! i) - w \<and>
              (\<forall>j < length (io_buffers out ! i) - w.
                 kept_buffers (batch_kept r ! i) ! j =
                   (if io_type out \<noteq> CPU \<and> int (w + j) < batch_rows r
                    then copy_to CPU 0 (io_buffers out ! i ! (w + j))
                           (io_sizes out ! i ! (w + j))
                    else io_buffers out ! i ! (w + j)))"
      by blast
  qed
  show ?thesis
    apply (rule exI [of _ ob], rule exI [of _ os], rule exI [of _ out], rule exI [of _ w])
    apply (intro conjI)
    apply (rule s1)
    apply (rule s2)
    apply (rule run)
    apply (rule wf)
    apply (rule len)
    apply (rule cols)
    done
qed

theorem warmup_trimming_witness:
  "\<exists>evs' r.
     evaluate_batch s5_args (thread_locals [copy_evaluator GPU 0]) s5_item True (frames_entry 1 8 16) [copy_evaluator GPU 0] 0 16 =
             Inr (evs', r) \<and>
     (\<exists>ob os out w.
           slice_columns (buffers (frames_entry 1 8 16)) 0
             (0 + min 16 (WORK_ITEM_SIZE s5_args)) = Inr ob \<and>
           slice_columns (buffer_sizes (frames_entry 1 8 16)) 0
             (0 + min 16 (WORK_ITEM_SIZE s5_args)) = Inr os \<and>
           run_evaluators (video_decode_item (frames_entry 1 8 16)) 0 [copy_evaluator GPU 0]
             \<lparr>io_names = column_names (frames_entry 1 8 16), io_buffers = ob, io_sizes = os,
              io_type = buffer_type (frames_entry 1 8 16), io_device = buffer_device_id (frames_entry 1 8 16)\<rparr>
             (min 16 (WORK_ITEM_SIZE s5_args)) =
             Inr (evs', out, batch_rows r, batch_released r) \<and>
           w = (if last_evaluator_group s5_args \<and> True
                then nat (min (batch_rows r)
                            (max 0 (min (warmup_count s5_args) (rows_from_start s5_item) -
                                    0)))
                else 0) \<and>
           length (batch_kept r) = last_evaluator_num_columns (thread_locals [copy_evaluator GPU 0]) \<and>
           (\<forall>i < last_evaluator_num_columns (thread_locals [copy_evaluator GPU 0]).
              i < length (io_buffers out) \<and> w \<le> length (io_buffers out ! i) \<and>
              discarded (batch_kept r ! i) =
                map (\<lambda>b. (last_evaluator_device_type (thread_locals [copy_evaluator GPU 0]), last_evaluator_device_id (thread_locals [copy_evaluator GPU 0]), b))
                  (take w (io_buffers out ! i)) \<and>
              kept_sizes (batch_kept r ! i) = drop w (io_sizes out ! i) \<and>
              length (kept_buffers (batch_kept r ! i)) = length (io_buffers out ! i) - w \<and>
              (\<forall>j < length (io_buffers out ! i) - w.
                 kept_buffers (batch_kept r ! i) ! j =
                   (if io_type out \<noteq> CPU \<and> int (w + j) < batch_rows r
                    then copy_to CPU 0 (io_buffers out ! i ! (w + j)) (io_sizes out ! i ! (w + j))
                    else io_buffers out ! i ! (w + j)))))"
proof -
  have "\<not> isl (evaluate_batch s5_args (thread_locals [copy_evaluator GPU 0]) s5_item True
            (frames_entry 1 8 16) [copy_evaluator GPU 0] 0 16)"
    by code_simp
  then obtain evs' r where
    e: "evaluate_batch s5_args (thread_locals [copy_evaluator GPU 0]) s5_item True
            (frames_entry 1 8 16) [copy_evaluator GPU 0] 0 16 = Inr (evs', r)"
    by (cases "evaluate_batch s5_args (thread_locals [copy_evaluator GPU 0]) s5_item True
            (frames_entry 1 8 16) [copy_evaluator GPU 0] 0 16") auto
  show ?thesis
    by (rule exI [of _ evs'], rule exI [of _ r], rule conjI [OF e warmup_trimming [OF e]])
qed

lemma warmup_trimming_example:
  "(case evaluate_batch s5_args (thread_locals [copy_evaluator GPU 0]) s5_item True
            (frames_entry 1 8 16) [copy_evaluator GPU 0] 0 16 of
      Inl e \<Rightarrow> None
    | Inr (evs', r) \<Rightarrow>
        Some (map (map (\<lambda>(t, d, b). (t, contents b)) \<circ> discarded) (batch_kept r),
              map (map (\<lambda>b. (alloc_type b, contents b)) \<circ> kept_buffers) (batch_kept r))) =
   Some ([[(GPU, [8]), (GPU, [9]), (GPU, [10]), (GPU, [11]), (GPU, [12]), (GPU, [13]),
           (GPU, [14]), (GPU, [15])]],
         [[(CPU, [16]), (CPU, [17]), (CPU, [18]), (CPU, [19]), (CPU, [20]), (CPU, [21]),
           (CPU, [22]), (CPU, [23])]])"
  by code_simp

section \<open>Pushed entries are in CPU memory\<close>

lemma evaluator_contract_state [simp]:
  "evaluator_contract (ev \<lparr>state := s\<rparr>) = evaluator_contract ev"
  by (simp add: evaluator_contract_def)

lemma evaluator_contractD:
  assumes "evaluator_contract ev" and "evaluate_fn ev s ib is = (s', ob, os)"
  shows "\<forall>column \<in> set ob. \<forall>b \<in> set column. alloc_type b = device_type ev"
    and "\<forall>column \<in> set ob. \<forall>sizes \<in> set os. length column = length sizes"
  using assms unfolding evaluator_contract_def by (metis (mono_tags, lifting) case_prod_conv)+

lemma run_evaluators_Cons_Inr:
  assumes "run_evaluators decode e (ev # rest) out batch_size =
             Inr (evs', out', batch_size', released)"
  shows "\<exists>input_buffers s' ob os rest' released'.
           evaluate_fn ev (state ev) input_buffers (io_sizes out) = (s', ob, os) \<and>
           length ob = length os \<and>
           (\<not> (e = 0 \<and> decode) \<longrightarrow> (\<forall>column \<in> set ob. int (length column) = batch_size)) \<and>
           (e = 0 \<and> decode \<longrightarrow> os \<noteq> []) \<and>
           run_evaluators decode (Suc e) rest
             \<lparr>io_names = output_names ev, io_buffers = ob, io_sizes = os,
              io_type = device_type ev, io_device = device_id ev\<rparr>
             (if e = 0 \<and> decode then int (length (os ! 0)) else batch_size) =
             Inr (rest', out', batch_size', released') \<and>
           evs' = ev \<lparr>state := s'\<rparr> # rest'"
proof -
  obtain input_buffers moved where
    mv: "(if io_type out \<noteq> device_type ev \<or> io_device out \<noteq> device_id ev
            then move_columns (device_type ev) (device_id ev)
                   (io_type out) (io_device out) (io_buffers out) (io_sizes out)
            else Inr (io_buffers out, [])) = Inr (input_buffers, moved)"
    using assms by (auto split: sum.splits)
  obtain s' ob os where ev: "evaluate_fn ev (state ev) input_buffers (io_sizes out) = (s', ob, os)"
    by (cases "evaluate_fn ev (state ev) input_buffers (io_sizes out)") auto
  from assms have "run_evaluators decode e (ev # rest) out batch_size \<noteq> Inl Fatal"
    "run_evaluators decode e (ev # rest) out batch_size \<noteq> Inl OutOfRange" by simp_all
  note unf = assms [unfolded run_evaluators.simps mv ev sum.case prod.case]
  have same: "length ob = length os"
    using unf by (auto split: if_splits)
  have valid: "\<not> (e = 0 \<and> decode) \<longrightarrow> (\<forall>column \<in> set ob. int (length column) = batch_size)"
    using unf same by (auto split: if_splits)
  have ne: "e = 0 \<and> decode \<longrightarrow> os \<noteq> []"
    using unf same valid by (auto split: if_splits)
  have "\<exists>rest' released'. run_evaluators decode (Suc e) rest
             \<lparr>io_names = output_names ev, io_buffers = ob, io_sizes = os,
              io_type = device_type ev, io_device = device_id ev\<rparr>
             (if e = 0 \<and> decode then int (length (os ! 0)) else batch_size) =
             Inr (rest', out', batch_size', released') \<and>
           evs' = ev \<lparr>state := s'\<rparr> # rest'"
    using unf same valid ne by (auto simp: Let_def split: if_splits sum.splits)
  with ev same valid ne show ?thesis by blast
qed

lemma run_evaluators_result:
  assumes "run_evaluators decode e evs out batch_size = Inr (evs', out', batch_size', released)"
    and "evs \<noteq> []" and "\<forall>ev \<in> set evs. evaluator_contract ev"
  shows "(\<forall>ev \<in> set evs'. evaluator_contract ev) \<and> length evs' = length evs \<and>
         (\<forall>column \<in> set (io_buffers out'). \<forall>b \<in> set column. alloc_type b = io_type out') \<and>
         (\<forall>column \<in> set (io_buffers out'). int (length column) = batch_size')"
  using assms
proof (induction evs arbitrary: e out batch_size evs' released)
  case Nil
  then show ?case by simp
next
  case (Cons ev rest)
  from Cons.prems(3) have c: "evaluator_contract ev"
    and cr: "\<forall>ev \<in> set rest. evaluator_contract ev" by simp_all
  let ?exempt = "e = 0 \<and> decode"
  from run_evaluators_Cons_Inr [OF Cons.prems(1)] obtain input_buffers s' ob os rest' released'
    where ev: "evaluate_fn ev (state ev) input_buffers (io_sizes out) = (s', ob, os)"
      and same: "length ob = length os"
      and valid: "\<not> ?exempt \<longrightarrow> (\<forall>column \<in> set ob. int (length column) = batch_size)"
      and ne: "?exempt \<longrightarrow> os \<noteq> []"
      and rec: "run_evaluators decode (Suc e) rest
             \<lparr>io_names = output_names ev, io_buffers = ob, io_sizes = os,
              io_type = device_type ev, io_device = device_id ev\<rparr>
             (if ?exempt then int (length (os ! 0)) else batch_size) =
             Inr (rest', out', batch_size', released')"
      and evs': "evs' = ev \<lparr>state := s'\<rparr> # rest'"
    by blast
  show ?case
  proof (cases "rest = []")
    case True
    with rec have out': "out' = \<lparr>io_names = output_names ev, io_buffers = ob, io_sizes = os,
              io_type = device_type ev, io_device = device_id ev\<rparr>"
      and bs': "batch_size' = (if ?exempt then int (length (os ! 0)) else batch_size)"
      and r': "rest' = []" by simp_all
    have rows: "\<forall>column \<in> set ob. int (length column) = batch_size'"
    proof (cases ?exempt)
      case True
      with ne have "os ! 0 \<in> set os" by (cases os) auto
      with evaluator_contractD(2) [OF c ev] True bs' show ?thesis by auto
    next
      case False
      with valid bs' show ?thesis by simp
    qed
    from evaluator_contractD(1) [OF c ev] rows c show ?thesis
      by (simp add: out' evs' r' True)
  next
    case False
    from Cons.IH [OF rec False cr] c show ?thesis by (simp add: evs')
  qed
qed

lemma alloc_type_copy_to [simp]: "alloc_type (copy_to t d b n) = t"
  by (simp add: copy_to_def memcpy_buffer_def new_buffer_def)

lemma evaluate_batch_cpu:
  assumes run: "evaluate_batch args locals work_item reset work_entry evs current_input
                  total_inputs = Inr (evs', r)"
    and ne: "evs \<noteq> []" and contract: "\<forall>ev \<in> set evs. evaluator_contract ev"
  shows "(\<forall>ev \<in> set evs'. evaluator_contract ev) \<and> evs' \<noteq> [] \<and>
         length (batch_kept r) = last_evaluator_num_columns locals \<and>
         (\<forall>k \<in> set (batch_kept r). \<forall>b \<in> set (kept_buffers k). alloc_type b = CPU)"
proof -
  let ?wf = "warmup_frames_of (last_evaluator_group args) reset (warmup_count args)
                (rows_from_start work_item) current_input (batch_rows r)"
  let ?n = "last_evaluator_num_columns locals"
  from evaluate_batch_Inr [OF run] obtain ob os out where
    ev: "run_evaluators (video_decode_item work_entry) 0 evs
             \<lparr>io_names = column_names work_entry, io_buffers = ob, io_sizes = os,
              io_type = buffer_type work_entry, io_device = buffer_device_id work_entry\<rparr>
             (min total_inputs (WORK_ITEM_SIZE args)) =
             Inr (evs', out, batch_rows r, batch_released r)"
    and trim: "trim_columns (last_evaluator_device_type locals) (last_evaluator_device_id locals)
             out ?wf (batch_rows r) 0 ?n = Inr (batch_kept r)"
    by blast
  from run_evaluators_result [OF ev ne contract] have
    c': "\<forall>ev \<in> set evs'. evaluator_contract ev" and l: "length evs' = length evs"
    and on: "\<And>column b. column \<in> set (io_buffers out) \<Longrightarrow> b \<in> set column \<Longrightarrow>
               alloc_type b = io_type out"
    and rows: "\<And>column. column \<in> set (io_buffers out) \<Longrightarrow> int (length column) = batch_rows r"
    by simp_all
  from trim_columns_Inr [OF trim] have len: "length (batch_kept r) = ?n"
    and col: "\<And>i. i < ?n \<Longrightarrow> i < length (io_buffers out) \<and>
        trim_column (last_evaluator_device_type locals) (last_evaluator_device_id locals)
          (io_type out) (io_device out) ?wf (batch_rows r)
          (io_buffers out ! i) (io_sizes out ! i) = Inr (batch_kept r ! i)"
    by simp_all
  have "\<forall>k \<in> set (batch_kept r). \<forall>b \<in> set (kept_buffers k). alloc_type b = CPU"
  proof (intro ballI)
    fix k b assume "k \<in> set (batch_kept r)" "b \<in> set (kept_buffers k)"
    then obtain i j where i: "i < ?n" "k = batch_kept r ! i"
      and j: "j < length (kept_buffers k)" "b = kept_buffers k ! j"
      using len by (metis in_set_conv_nth)
    let ?column = "io_buffers out ! i"
    from col [OF i(1)] i(2) have inb: "i < length (io_buffers out)"
      and tc: "trim_column (last_evaluator_device_type locals) (last_evaluator_device_id locals)
          (io_type out) (io_device out) ?wf (batch_rows r) ?column (io_sizes out ! i) = Inr k"
      by simp_all
    from inb have mem: "?column \<in> set (io_buffers out)" by simp
    define w where "w = nat ?wf"
    note t = trim_column_Inr [OF tc, folded w_def]
    from t j(1) have jlt: "j < length ?column - w" by simp
    with t j(2) have b: "b = (if io_type out \<noteq> CPU \<and> int (w + j) < batch_rows r
               then copy_to CPU 0 (?column ! (w + j)) (io_sizes out ! i ! (w + j))
               else ?column ! (w + j))" by simp
    from jlt have inr: "w + j < length ?column" by simp
    show "alloc_type b = CPU"
    proof (cases "io_type out = CPU")
      case True
      with b on [OF mem, of "?column ! (w + j)"] inr show ?thesis by simp
    next
      case False
      from rows [OF mem] inr have "int (w + j) < batch_rows r" by simp
      with b False show ?thesis by simp
    qed
  qed
  with c' l ne len show ?thesis by auto
qed

lemma cpu_entry_append_kept:
  assumes "cpu_entry e" and "\<forall>k \<in> set kept. \<forall>b \<in> set (kept_buffers k). alloc_type b = CPU"
  shows "cpu_entry (append_kept e kept)"
proof -
  have "\<And>column b. column \<in> set (map2 (\<lambda>column k. column @ kept_buffers k) (buffers e) kept) \<Longrightarrow>
          b \<in> set column \<Longrightarrow> alloc_type b = CPU"
  proof -
    fix column b
    assume "column \<in> set (map2 (\<lambda>column k. column @ kept_buffers k) (buffers e) kept)"
      and b: "b \<in> set column"
    then obtain c k where "(c, k) \<in> set (zip (buffers e) kept)" "column = c @ kept_buffers k"
      by auto
    then have "c \<in> set (buffers e)" "k \<in> set kept" "column = c @ kept_buffers k"
      by (auto dest: set_zip_leftD set_zip_rightD)
    with assms b show "alloc_type b = CPU" by (auto simp: cpu_entry_def)
  qed
  with assms(1) show ?thesis by (simp add: cpu_entry_def append_kept_def)
qed

lemma evaluate_batches_cpu:
  assumes "evaluate_batches args locals work_item reset work_entry total_inputs evs
             current_input output_work_entry released = Some y"
  shows "evs \<noteq> [] \<longrightarrow> (\<forall>ev \<in> set evs. evaluator_contract ev) \<longrightarrow> cpu_entry output_work_entry \<longrightarrow>
         (\<forall>evs' out released'. y = Inr (evs', out, released') \<longrightarrow>
            evs' \<noteq> [] \<and> (\<forall>ev \<in> set evs'. evaluator_contract ev) \<and> cpu_entry out)"
proof (rule evaluate_batches.raw_induct
    [where P = "\<lambda>args locals work_item reset work_entry total_inputs evs current_input
                  output_work_entry released y.
         evs \<noteq> [] \<longrightarrow> (\<forall>ev \<in> set evs. evaluator_contract ev) \<longrightarrow> cpu_entry output_work_entry \<longrightarrow>
         (\<forall>evs' out released'. y = Inr (evs', out, released') \<longrightarrow>
            evs' \<noteq> [] \<and> (\<forall>ev \<in> set evs'. evaluator_contract ev) \<and> cpu_entry out)",
     OF _ assms], goal_cases)
  case (1 loop args locals work_item reset work_entry total_inputs evs
          current_input output_work_entry released y)
  note hyps = 1
  show ?case
  proof (intro impI allI)
    fix evs' out released'
    assume ne: "evs \<noteq> []" and c: "\<forall>ev \<in> set evs. evaluator_contract ev"
      and cpu: "cpu_entry output_work_entry" and y: "y = Inr (evs', out, released')"
    show "evs' \<noteq> [] \<and> (\<forall>ev \<in> set evs'. evaluator_contract ev) \<and> cpu_entry out"
    proof (cases "current_input < total_inputs")
      case False
      with hyps(2) y ne c cpu show ?thesis by simp
    next
      case True
      with hyps(2) y obtain evs1 r where
        b: "evaluate_batch args locals work_item reset work_entry evs current_input
              total_inputs = Inr (evs1, r)"
        and rec: "loop args locals work_item reset work_entry total_inputs evs1
                    (current_input + batch_rows r)
                    (append_kept output_work_entry (batch_kept r))
                    (released @ releases_of r) = Some y"
        by (auto split: sum.splits)
      from evaluate_batch_cpu [OF b ne c] have
        c1: "\<forall>ev \<in> set evs1. evaluator_contract ev" and ne1: "evs1 \<noteq> []"
        and k: "\<forall>k \<in> set (batch_kept r). \<forall>b \<in> set (kept_buffers k). alloc_type b = CPU"
        by simp_all
      from hyps(1) [OF rec] ne1 c1 cpu_entry_append_kept [OF cpu k] y
      show ?thesis by blast
    qed
  qed
qed

lemma begin_entry_evaluators:
  assumes "begin_entry md work_item tr evs = (evs', calls, tr')"
    and "evs \<noteq> []" and "\<forall>ev \<in> set evs. evaluator_contract ev"
  shows "evs' \<noteq> [] \<and> (\<forall>ev \<in> set evs'. evaluator_contract ev)"
  using assms by (auto simp: begin_entry_def configure_and_reset_closed)

lemma cpu_entry_empty:
  "cpu_entry \<lparr>entry_work_item_index = idx, column_names = [], buffer_sizes = replicate n [],
              buffers = replicate n [], buffer_type = CPU, buffer_device_id = 0,
              video_decode_item = False\<rparr>"
  by (auto simp: cpu_entry_def)

lemma evaluate_entry_cpu:
  assumes run: "evaluate_entry args locals w work_entry = Some (Inr r)"
    and ne: "worker_evaluators w \<noteq> []"
    and contract: "\<forall>ev \<in> set (worker_evaluators w). evaluator_contract ev"
  shows "cpu_entry (pushed r) \<and> worker_evaluators (next_worker r) \<noteq> [] \<and>
         (\<forall>ev \<in> set (worker_evaluators (next_worker r)). evaluator_contract ev)"
proof -
  let ?idx = "entry_work_item_index work_entry"
  let ?item = "work_items args ! nat ?idx"
  let ?md = "metadata args ! nat (video_index ?item)"
  let ?total = "if buffers work_entry = [] then 0 else int (length (buffers work_entry ! 0))"
  let ?empty = "\<lparr>entry_work_item_index = ?idx, column_names = [],
                 buffer_sizes = replicate (last_evaluator_num_columns locals) [],
                 buffers = replicate (last_evaluator_num_columns locals) [],
                 buffer_type = CPU, buffer_device_id = 0, video_decode_item = False\<rparr>"
  obtain evs calls tr where
    be: "begin_entry ?md ?item (worker_tracker w) (worker_evaluators w) = (evs, calls, tr)"
    by (cases "begin_entry ?md ?item (worker_tracker w) (worker_evaluators w)") auto
  from run be obtain evs' out released where
    loop: "evaluate_batches args locals ?item (needs_reset ?item (worker_tracker w)) work_entry
             ?total evs 0 ?empty [] = Some (Inr (evs', out, released))"
    and r: "pushed r = out" "worker_evaluators (next_worker r) = evs'"
    by (auto simp: evaluate_entry_def Let_def split: if_splits option.splits sum.splits)
  from begin_entry_evaluators [OF be ne contract] have
    ne1: "evs \<noteq> []" and c1: "\<forall>ev \<in> set evs. evaluator_contract ev" by simp_all
  from evaluate_batches_cpu [OF loop] ne1 c1 cpu_entry_empty r show ?thesis by simp
qed

lemma evaluate_entries_cpu:
  assumes "evaluate_entries args locals w input_work = Some (Inr results)"
    and "worker_evaluators w \<noteq> []"
    and "\<forall>ev \<in> set (worker_evaluators w). evaluator_contract ev"
  shows "\<forall>r \<in> set results. cpu_entry (pushed r)"
  using assms
proof (induction input_work arbitrary: w results)
  case Nil
  then show ?case by simp
next
  case (Cons work_entry rest)
  show ?case
  proof (cases "entry_work_item_index work_entry = - 1")
    case True
    with Cons.prems(1) show ?thesis by simp
  next
    case False
    with Cons.prems(1) obtain r rs where
      e: "evaluate_entry args locals w work_entry = Some (Inr r)"
      and es: "evaluate_entries args locals (next_worker r) rest = Some (Inr rs)"
      and res: "results = r # rs"
      by (auto split: option.splits sum.splits)
    from evaluate_entry_cpu [OF e Cons.prems(2,3)] have
      cpu: "cpu_entry (pushed r)" and ne: "worker_evaluators (next_worker r) \<noteq> []"
      and c: "\<forall>ev \<in> set (worker_evaluators (next_worker r)). evaluator_contract ev"
      by simp_all
    from Cons.IH [OF es ne c] cpu res show ?thesis by simp
  qed
qed

lemma save_columns_step:
  "out_idx < num_outputs \<Longrightarrow> save_columns num_frames work_entry out_idx num_outputs =
     (if \<not> (out_idx < length (buffer_sizes work_entry) \<and> out_idx < length (buffers work_entry))
      then Inl OutOfRange
      else if length (buffer_sizes work_entry ! out_idx) \<noteq> num_frames then Inl Fatal
      else if length (buffers work_entry ! out_idx) \<noteq> num_frames then Inl Fatal
      else (case save_columns num_frames work_entry (Suc out_idx) num_outputs of
              Inl e \<Rightarrow> Inl e
            | Inr released \<Rightarrow>
                Inr (map (\<lambda>i. (CPU, buffer_device_id work_entry,
                                buffers work_entry ! out_idx ! i)) [0..<num_frames]
                     @ released)))"
  by (subst save_columns.simps) simp

lemma save_columns_stop:
  "\<not> out_idx < num_outputs \<Longrightarrow> save_columns num_frames work_entry out_idx num_outputs = Inr []"
  by (subst save_columns.simps) simp

lemma save_columns_releases:
  "save_columns num_frames work_entry out_idx num_outputs = Inr released \<Longrightarrow>
     \<forall>(t, d, b) \<in> set released.
        t = CPU \<and> d = buffer_device_id work_entry \<and>
        (\<exists>column \<in> set (buffers work_entry). b \<in> set column)"
proof (induction num_frames work_entry out_idx num_outputs arbitrary: released
       rule: save_columns.induct)
  case (1 num_frames work_entry out_idx num_outputs)
  show ?case
  proof (cases "out_idx < num_outputs")
    case False
    with "1.prems" show ?thesis by (simp add: save_columns_stop)
  next
    case True
    with "1.prems" have inb: "out_idx < length (buffer_sizes work_entry)"
      "out_idx < length (buffers work_entry)"
      and l1: "length (buffer_sizes work_entry ! out_idx) = num_frames"
      and l2: "length (buffers work_entry ! out_idx) = num_frames"
      by (auto simp: save_columns_step split: if_splits)
    with True "1.prems" obtain rest where
      rest: "save_columns num_frames work_entry (Suc out_idx) num_outputs = Inr rest"
      and rel: "released = map (\<lambda>i. (CPU, buffer_device_id work_entry,
                                buffers work_entry ! out_idx ! i)) [0..<num_frames] @ rest"
      by (auto simp: save_columns_step split: if_splits sum.splits)
    from "1.IH" [OF True _ _ _ rest] inb l1 l2
    have ih: "\<forall>(t, d, b) \<in> set rest. t = CPU \<and> d = buffer_device_id work_entry \<and>
                (\<exists>column \<in> set (buffers work_entry). b \<in> set column)" by simp
    have "\<And>i. i < num_frames \<Longrightarrow>
            \<exists>column \<in> set (buffers work_entry). buffers work_entry ! out_idx ! i \<in> set column"
      using inb(2) l2 by (intro bexI [of _ "buffers work_entry ! out_idx"]) simp_all
    with ih show ?thesis unfolding rel by auto
  qed
qed

text \<open>
  Claim C10. Let every evaluator of the group allocate its output buffers on its own
  device and give all its output columns the same number of rows. Then every entry the
  worker pushes is tagged \<open>CPU\<close> with device id \<open>0\<close>, every buffer in it was allocated in
  CPU memory, and so every release the save worker performs for it, always with
  \<open>DeviceType::CPU\<close>, is applied to a CPU-allocated buffer.
\<close>

theorem pushed_entries_on_cpu:
  assumes contract: "\<forall>ev \<in> set evs. evaluator_contract ev"
    and run: "evaluate_thread args evs input_work = Some (Inr results)"
  shows "\<forall>r \<in> set results.
           buffer_type (pushed r) = CPU \<and> buffer_device_id (pushed r) = 0 \<and>
           (\<forall>column \<in> set (buffers (pushed r)). \<forall>b \<in> set column. alloc_type b = CPU) \<and>
           (\<forall>names released. save_entry names (pushed r) = Inr released \<longrightarrow>
              (\<forall>(t, d, b) \<in> set released. t = CPU \<and> alloc_type b = CPU))"
proof
  fix r assume r: "r \<in> set results"
  from run have ne: "evs \<noteq> []"
    and es: "evaluate_entries args (thread_locals evs)
               \<lparr>worker_evaluators = evs, worker_tracker = initial_tracker\<rparr> input_work =
             Some (Inr results)"
    by (auto simp: evaluate_thread_def split: if_splits)
  from evaluate_entries_cpu [OF es] ne contract r have cpu: "cpu_entry (pushed r)" by simp
  have "\<And>names released. save_entry names (pushed r) = Inr released \<Longrightarrow>
          \<forall>(t, d, b) \<in> set released. t = CPU \<and> alloc_type b = CPU"
  proof -
    fix names released assume "save_entry names (pushed r) = Inr released"
    then have "\<forall>(t, d, b) \<in> set released. t = CPU \<and> d = buffer_device_id (pushed r) \<and>
                (\<exists>column \<in> set (buffers (pushed r)). b \<in> set column)"
      unfolding save_entry_def Let_def by (rule save_columns_releases)
    with cpu show "\<forall>(t, d, b) \<in> set released. t = CPU \<and> alloc_type b = CPU"
      by (fastforce simp: cpu_entry_def)
  qed
  with cpu show "buffer_type (pushed r) = CPU \<and> buffer_device_id (pushed r) = 0 \<and>
           (\<forall>column \<in> set (buffers (pushed r)). \<forall>b \<in> set column. alloc_type b = CPU) \<and>
           (\<forall>names released. save_entry names (pushed r) = Inr released \<longrightarrow>
              (\<forall>(t, d, b) \<in> set released. t = CPU \<and> alloc_type b = CPU))"
    by (simp add: cpu_entry_def)
qed

lemma copy_evaluator_contract: "evaluator_contract (copy_evaluator t d)"
  by (simp add: evaluator_contract_def copy_evaluator_def)

theorem pushed_entries_on_cpu_witness:
  "\<exists>results.
     evaluate_thread s5_args [copy_evaluator GPU 0] s5_queue = Some (Inr results) \<and>
     length results = 3 \<and>
     (\<forall>r \<in> set results.
           buffer_type (pushed r) = CPU \<and> buffer_device_id (pushed r) = 0 \<and>
           (\<forall>column \<in> set (buffers (pushed r)). \<forall>b \<in> set column. alloc_type b = CPU) \<and>
           (\<forall>names released. save_entry names (pushed r) = Inr released \<longrightarrow>
              (\<forall>(t, d, b) \<in> set released. t = CPU \<and> alloc_type b = CPU)))"
proof -
  have "case evaluate_thread s5_args [copy_evaluator GPU 0] s5_queue of
          Some (Inr results) \<Rightarrow> length results = 3 | _ \<Rightarrow> False"
    by code_simp
  then obtain results where
    run: "evaluate_thread s5_args [copy_evaluator GPU 0] s5_queue = Some (Inr results)"
    and len: "length results = 3"
    by (auto split: option.splits sum.splits)
  have c: "\<forall>ev \<in> set [copy_evaluator GPU 0]. evaluator_contract ev"
    by (simp add: copy_evaluator_contract)
  from pushed_entries_on_cpu [OF c run] run len show ?thesis by blast
qed

lemma pushed_entries_saved:
  "(case evaluate_thread s5_args [copy_evaluator GPU 0] s5_queue of
      Some (Inr results) \<Rightarrow>
        map (\<lambda>r. case save_entry [''frame''] (pushed r) of
                    Inl e \<Rightarrow> None
                  | Inr released \<Rightarrow> Some (length released)) results
    | _ \<Rightarrow> []) = [Some 16, Some 16, Some 8]"
  by code_simp

section \<open>Batch slices\<close>

text \<open>
  Claim C9 says that every batch slice \<open>[current_input, current_input + batch_size)\<close> with
  \<open>batch_size = min total_inputs WORK_ITEM_SIZE\<close> lies within the input columns. It does
  not: an entry of 24 rows (a work item of 16 rows and 8 warmup rows forwarded by an
  earlier factory group) that is not a video decode entry is cut, with a work item size
  of 16, into the batches \<open>[0, 16)\<close> and \<open>[16, 32)\<close>, and the second slice leaves the 24
  rows of the columns: the batch, and with it the worker, ends in an out-of-range access.
\<close>

theorem batch_slice_out_of_range:
  "slice (buffers grown_entry ! 0) 16 (16 + min 24 16) = Inl OutOfRange \<and>
   evaluate_batch s5_args (thread_locals [copy_evaluator CPU 0]) s5_item False grown_entry
     [copy_evaluator CPU 0] 16 24 = Inl OutOfRange \<and>
   evaluate_thread s5_args [copy_evaluator CPU 0] [grown_entry, sentinel] =
     Some (Inl OutOfRange)"
proof -
  have 1: "slice (buffers grown_entry ! 0) 16 (16 + min 24 16) = Inl OutOfRange"
    by code_simp
  have "case evaluate_batch s5_args (thread_locals [copy_evaluator CPU 0]) s5_item False
               grown_entry [copy_evaluator CPU 0] 16 24 of
          Inl e \<Rightarrow> e = OutOfRange | Inr r \<Rightarrow> False"
    by code_simp
  then have 2: "evaluate_batch s5_args (thread_locals [copy_evaluator CPU 0]) s5_item False
              grown_entry [copy_evaluator CPU 0] 16 24 = Inl OutOfRange"
    by (auto split: sum.splits)
  have "case evaluate_thread s5_args [copy_evaluator CPU 0] [grown_entry, sentinel] of
          Some (Inl e) \<Rightarrow> e = OutOfRange | _ \<Rightarrow> False"
    by code_simp
  then have 3: "evaluate_thread s5_args [copy_evaluator CPU 0] [grown_entry, sentinel] =
                  Some (Inl OutOfRange)"
    by (auto split: option.splits sum.splits)
  from 1 2 3 show ?thesis by simp
qed

lemma first_batch_in_range:
  "(case evaluate_batch s5_args (thread_locals [copy_evaluator CPU 0]) s5_item False grown_entry
           [copy_evaluator CPU 0] 0 24 of
      Inl e \<Rightarrow> None | Inr (evs', r) \<Rightarrow> Some (batch_rows r)) = Some 16"
  by code_simp

section \<open>Scenario S5\<close>

text \<open>
  Claim C3 says that in scenario S5 (warmup 8, \<open>All\<close> sampling over one video of 40 frames,
  work item size 16) rows 0..7 are released by the last factory group and only rows
  8..39 are saved. They are not released: the first work item has \<open>rows_from_start = 0\<close>, so
  the number of warmup rows of its batch is \<open>min 16 (max 0 (min 8 0 - 0)) = 0\<close>, and a
  worker of the last group that is fed the 40 rows passes rows 0..39 on.
\<close>

theorem s5_rows_counterexample:
  "map_option fst (plan_all 16 [video_of_frames 40] 0 ([], [])) =
     Some [\<lparr>video_index = 0, item_id = 0, next_item_id = 16, rows_from_start = 0\<rparr>,
           \<lparr>video_index = 0, item_id = 16, next_item_id = 32, rows_from_start = 16\<rparr>,
           \<lparr>video_index = 0, item_id = 32, next_item_id = 40, rows_from_start = 32\<rparr>] \<and>
   warmup_frames_of True True 8 (rows_from_start (work_items s5_args ! 0)) 0 16 = 0 \<and>
   (case evaluate_thread s5_args [copy_evaluator GPU 0] s5_queue of
      Some (Inr results) \<Rightarrow> map pushed_rows results
    | _ \<Rightarrow> []) =
     [[[[0], [1], [2], [3], [4], [5], [6], [7], [8], [9], [10], [11], [12], [13], [14], [15]]],
      [[[16], [17], [18], [19], [20], [21], [22], [23], [24], [25], [26], [27], [28], [29],
        [30], [31]]],
      [[[32], [33], [34], [35], [36], [37], [38], [39]]]]"
  by code_simp

lemma s5_items: "work_items s5_args =
     [\<lparr>video_index = 0, item_id = 0, next_item_id = 16, rows_from_start = 0\<rparr>,
      \<lparr>video_index = 0, item_id = 16, next_item_id = 32, rows_from_start = 16\<rparr>,
      \<lparr>video_index = 0, item_id = 32, next_item_id = 40, rows_from_start = 32\<rparr>]"
  by code_simp

lemma s5_fields:
  "last_evaluator_group s5_args" "warmup_count s5_args = 8" "WORK_ITEM_SIZE s5_args = 16"
  by (simp_all add: s5_args_def)

lemma s5_warmup_zero:
  assumes "i < 3" and "0 \<le> current_input"
  shows "warmup_frames_of (last_evaluator_group s5_args)
           (needs_reset (work_items s5_args ! i) (tracker_after (take i (work_items s5_args))))
           (warmup_count s5_args) (rows_from_start (work_items s5_args ! i))
           current_input batch_size \<le> 0"
proof -
  from assms(1) consider "i = 0" | "i = 1" | "i = 2" by linarith
  then show ?thesis
  proof cases
    case 1
    with assms(2) show ?thesis
      by (simp add: s5_items s5_fields warmup_frames_of_def Let_def)
  next
    case 2
    then show ?thesis
      by (simp add: s5_items warmup_frames_of_def tracker_after_def advance_tracker_def
            needs_reset_def to_i32_def)
  next
    case 3
    then have "take i (work_items s5_args) =
      [\<lparr>video_index = 0, item_id = 0, next_item_id = 16, rows_from_start = 0\<rparr>,
       \<lparr>video_index = 0, item_id = 16, next_item_id = 32, rows_from_start = 16\<rparr>]"
      by (simp add: s5_items numeral_2_eq_2)
    with 3 show ?thesis
      by (simp add: s5_items warmup_frames_of_def tracker_after_def advance_tracker_def
            needs_reset_def to_i32_def)
  qed
qed

text \<open>
  Claim C3, as amended. In scenario S5 the first work item has \<open>rows_from_start = 0\<close>, and
  when one worker of the last factory group processes the three planned items in order,
  every batch of every entry that succeeds releases no output row as warmup and keeps
  every row the last evaluator produced, in every column.
\<close>

theorem s5_keeps_all_rows:
  assumes i: "i < 3" and cur: "0 \<le> current_input"
    and run: "evaluate_batch s5_args locals (work_items s5_args ! i)
                (needs_reset (work_items s5_args ! i) (tracker_after (take i (work_items s5_args))))
                work_entry evs current_input total_inputs = Inr (evs', r)"
  shows "rows_from_start (work_items s5_args ! 0) = 0 \<and>
         (\<exists>ob os out.
           run_evaluators (video_decode_item work_entry) 0 evs
             \<lparr>io_names = column_names work_entry, io_buffers = ob, io_sizes = os,
              io_type = buffer_type work_entry, io_device = buffer_device_id work_entry\<rparr>
             (min total_inputs (WORK_ITEM_SIZE s5_args)) =
             Inr (evs', out, batch_rows r, batch_released r) \<and>
           length (batch_kept r) = last_evaluator_num_columns locals \<and>
           (\<forall>c < last_evaluator_num_columns locals.
              discarded (batch_kept r ! c) = [] \<and>
              kept_sizes (batch_kept r ! c) = io_sizes out ! c \<and>
              length (kept_buffers (batch_kept r ! c)) = length (io_buffers out ! c)))"
proof -
  let ?item = "work_items s5_args ! i"
  let ?wf = "warmup_frames_of (last_evaluator_group s5_args)
                (needs_reset ?item (tracker_after (take i (work_items s5_args))))
                (warmup_count s5_args) (rows_from_start ?item) current_input (batch_rows r)"
  let ?n = "last_evaluator_num_columns locals"
  from evaluate_batch_Inr [OF run] obtain ob os out where
    ev: "run_evaluators (video_decode_item work_entry) 0 evs
             \<lparr>io_names = column_names work_entry, io_buffers = ob, io_sizes = os,
              io_type = buffer_type work_entry, io_device = buffer_device_id work_entry\<rparr>
             (min total_inputs (WORK_ITEM_SIZE s5_args)) =
             Inr (evs', out, batch_rows r, batch_released r)"
    and trim: "trim_columns (last_evaluator_device_type locals) (last_evaluator_device_id locals)
             out ?wf (batch_rows r) 0 ?n = Inr (batch_kept r)"
    by blast
  from trim_columns_Inr [OF trim] have len: "length (batch_kept r) = ?n"
    and col: "\<And>c. c < ?n \<Longrightarrow>
        trim_column (last_evaluator_device_type locals) (last_evaluator_device_id locals)
          (io_type out) (io_device out) ?wf (batch_rows r)
          (io_buffers out ! c) (io_sizes out ! c) = Inr (batch_kept r ! c)"
    by simp_all
  have le: "?wf \<le> 0" by (rule s5_warmup_zero [OF i cur])
  have cols: "\<forall>c < ?n. discarded (batch_kept r ! c) = [] \<and>
              kept_sizes (batch_kept r ! c) = io_sizes out ! c \<and>
              length (kept_buffers (batch_kept r ! c)) = length (io_buffers out ! c)"
  proof (intro allI impI)
    fix c assume "c < ?n"
    from trim_column_Inr [OF col [OF this]] le
    show "discarded (batch_kept r ! c) = [] \<and>
              kept_sizes (batch_kept r ! c) = io_sizes out ! c \<and>
              length (kept_buffers (batch_kept r ! c)) = length (io_buffers out ! c)"
      by simp
  qed
  have first: "rows_from_start (work_items s5_args ! 0) = 0" by (simp add: s5_items)
  show ?thesis
    apply (rule conjI [OF first])
    apply (rule exI [of _ ob], rule exI [of _ os], rule exI [of _ out])
    apply (intro conjI)
    apply (rule ev)
    apply (rule len)
    apply (rule cols)
    done
qed

theorem s5_keeps_all_rows_witness:
  "\<exists>evs' r.
     evaluate_batch s5_args (thread_locals [copy_evaluator GPU 0]) (work_items s5_args ! 0)
                (needs_reset (work_items s5_args ! 0) (tracker_after (take 0 (work_items s5_args))))
                (frames_entry 0 0 16) [copy_evaluator GPU 0] 0 16 = Inr (evs', r) \<and>
     rows_from_start (work_items s5_args ! 0) = 0 \<and>
         (\<exists>ob os out.
           run_evaluators (video_decode_item (frames_entry 0 0 16)) 0 [copy_evaluator GPU 0]
             \<lparr>io_names = column_names (frames_entry 0 0 16), io_buffers = ob, io_sizes = os,
              io_type = buffer_type (frames_entry 0 0 16), io_device = buffer_device_id (frames_entry 0 0 16)\<rparr>
             (min 16 (WORK_ITEM_SIZE s5_args)) =
             Inr (evs', out, batch_rows r, batch_released r) \<and>
           length (batch_kept r) = last_evaluator_num_columns (thread_locals [copy_evaluator GPU 0]) \<and>
           (\<forall>c < last_evaluator_num_columns (thread_locals [copy_evaluator GPU 0]).
              discarded (batch_kept r ! c) = [] \<and>
              kept_sizes (batch_kept r ! c) = io_sizes out ! c \<and>
              length (kept_buffers (batch_kept r ! c)) = length (io_buffers out ! c)))"
proof -
  have "\<not> isl (evaluate_batch s5_args (thread_locals [copy_evaluator GPU 0]) (work_items s5_args ! 0)
                (needs_reset (work_items s5_args ! 0) (tracker_after (take 0 (work_items s5_args))))
                (frames_entry 0 0 16) [copy_evaluator GPU 0] 0 16)"
    by code_simp
  then obtain evs' r where
    e: "evaluate_batch s5_args (thread_locals [copy_evaluator GPU 0]) (work_items s5_args ! 0)
                (needs_reset (work_items s5_args ! 0) (tracker_after (take 0 (work_items s5_args))))
                (frames_entry 0 0 16) [copy_evaluator GPU 0] 0 16 = Inr (evs', r)"
    by (cases "evaluate_batch s5_args (thread_locals [copy_evaluator GPU 0]) (work_items s5_args ! 0)
                (needs_reset (work_items s5_args ! 0) (tracker_after (take 0 (work_items s5_args))))
                (frames_entry 0 0 16) [copy_evaluator GPU 0] 0 16") auto
  have i: "(0 :: nat) < 3" and cur: "(0 :: int) \<le> 0" by simp_all
  show ?thesis
    by (rule exI [of _ evs'], rule exI [of _ r], rule conjI [OF e s5_keeps_all_rows [OF i cur e]])
qed

section \<open>The intake gate\<close>

lemma to_i32_below:
  assumes "d \<le> t" "0 \<le> t" "t < 2 ^ 31" "to_i32 d < t"
  shows "d < t"
proof (rule ccontr)
  assume "\<not> d < t"
  with assms(1) have "d = t" by simp
  with assms(2,3) have "to_i32 d = t" by (simp add: to_i32_def)
  with assms(4) show False by simp
qed

lemma read_local_work_ok:
  assumes "node_ok j nd" "0 \<le> threshold j" "threshold j < 2 ^ 31"
  shows "node_ok j (read_local_work nd)" and "decided_ok j (read_local_work nd)"
  using assms to_i32_below [of "accepted_items nd - retired_items nd" "threshold j"]
  by (auto simp: node_ok_def decided_ok_def read_local_work_def)

lemma accept_item_ok:
  assumes "decided_ok j nd" "local_work nd < threshold j"
  shows "node_ok j (accept_item idx nd)"
  using assms by (auto simp: node_ok_def decided_ok_def accept_item_def)

lemma retire_item_ok:
  "node_ok j nd \<Longrightarrow> node_ok j (retire_item nd)"
  "decided_ok j nd \<Longrightarrow> decided_ok j (retire_item nd)"
  by (auto simp: node_ok_def decided_ok_def retire_item_def)

lemma peers_ok_update:
  assumes "\<forall>p \<in> set ps. peer_ok j p" and "peer_ok j q"
  shows "\<forall>p \<in> set (ps [w := q]). peer_ok j p"
  using assms set_update_subset_insert [of ps w q] by blast

lemma gate_inv_initial: "0 \<le> threshold j \<Longrightarrow> gate_inv j (initial_cluster j)"
  by (simp add: gate_inv_def initial_cluster_def new_node_def node_ok_def peer_ok_def)

lemma gate_inv_master_step:
  assumes inv: "gate_inv j c" and t: "0 \<le> threshold j" "threshold j < 2 ^ 31"
    and st: "master_step j c = Some c'"
  shows "gate_inv j c'"
proof (cases "master_at c")
  case MLoop
  with st inv read_local_work_ok [OF _ t, of "master_node c"] show ?thesis
    by (auto simp: master_step_def gate_inv_def split: if_splits)
next
  case MDecided
  with st inv accept_item_ok [of j "master_node c"] show ?thesis
    by (auto simp: master_step_def gate_inv_def split: if_splits)
next
  case MDrain
  with st inv show ?thesis
    by (auto simp: master_step_def gate_inv_def split: if_splits)
next
  case MExit
  with st show ?thesis by (simp add: master_step_def)
qed

lemma gate_inv_worker_step:
  assumes inv: "gate_inv j c" and t: "0 \<le> threshold j" "threshold j < 2 ^ 31"
    and st: "worker_step j w c = Some c'"
  shows "gate_inv j c'"
proof -
  from st have w: "w < length (peers c)" by (auto simp: worker_step_def split: if_splits)
  let ?p = "peers c ! w"
  from inv w have ok: "peer_ok j ?p" and all: "\<forall>p \<in> set (peers c). peer_ok j p"
    by (simp_all add: gate_inv_def)
  show ?thesis
  proof (cases "peer_pc ?p")
    case WLoop
    let ?q = "\<lparr>peer_node = read_local_work (peer_node ?p), peer_pc = WDecided\<rparr>"
    from st w WLoop have c': "c' = c \<lparr>peers := (peers c) [w := ?q]\<rparr>"
      by (simp add: worker_step_def Let_def)
    from ok read_local_work_ok [OF _ t, of "peer_node ?p"] have "peer_ok j ?q"
      by (simp add: peer_ok_def)
    from peers_ok_update [OF all this] inv show ?thesis by (simp add: c' gate_inv_def)
  next
    case WDecided
    let ?q = "?p \<lparr>peer_pc := WLoop\<rparr>"
    from st w WDecided have c': "c' = c \<lparr>peers := (peers c) [w := ?q]\<rparr>"
      by (auto simp: worker_step_def Let_def split: if_splits)
    from ok have "peer_ok j ?q" by (simp add: peer_ok_def)
    from peers_ok_update [OF all this] inv show ?thesis by (simp add: c' gate_inv_def)
  next
    case WDone
    with st w show ?thesis by (simp add: worker_step_def Let_def)
  qed
qed

lemma receive_reply_ok:
  assumes "peer_ok j p" "waiting j p"
  shows "peer_ok j (receive_reply v p)"
  using assms accept_item_ok [of j "peer_node p" v]
  by (auto simp: peer_ok_def waiting_def receive_reply_def)

lemma exchange_peers:
  assumes "exchange j w c = Some c'"
  shows "w < length (peers c) \<and> waiting j (peers c ! w) \<and>
         master_node c' = master_node c \<and> master_at c' \<noteq> MDecided \<and>
         (\<exists>v. peers c' = (peers c) [w := receive_reply v (peers c ! w)] \<and>
              replies c' = replies c @ [(w, v)] \<and>
              (master_at c = MDecided \<and> v = next_work_item_to_allocate c \<and>
               next_work_item_to_allocate c' = v + 1 \<and> master_at c' = MLoop \<and>
               workers_done c' = workers_done c \<and> 1 < num_nodes j
               \<or> master_at c = MDrain \<and> v = - 1 \<and> master_at c' = MDrain \<and>
                 next_work_item_to_allocate c' = next_work_item_to_allocate c \<and>
                 workers_done c' = workers_done c + 1 \<and> workers_done c < num_nodes j))"
  using assms
  by (cases "master_at c") (auto simp: exchange_def Let_def split: if_splits)

lemma gate_inv_exchange:
  assumes inv: "gate_inv j c" and st: "exchange j w c = Some c'"
  shows "gate_inv j c'"
proof -
  from exchange_peers [OF st] obtain v where
    w: "w < length (peers c)" "waiting j (peers c ! w)"
    and m: "master_node c' = master_node c" "master_at c' \<noteq> MDecided"
    and p: "peers c' = (peers c) [w := receive_reply v (peers c ! w)]" by blast
  from inv w have ok: "peer_ok j (peers c ! w)" and all: "\<forall>p \<in> set (peers c). peer_ok j p"
    by (simp_all add: gate_inv_def)
  from peers_ok_update [OF all receive_reply_ok [OF ok w(2)]] inv m p
  show ?thesis by (simp add: gate_inv_def)
qed

lemma gate_inv_retire:
  assumes inv: "gate_inv j c" and st: "retire k c = Some c'"
  shows "gate_inv j c'"
proof (cases "k = 0")
  case True
  with st inv retire_item_ok [of j "master_node c"] show ?thesis
    by (auto simp: retire_def gate_inv_def)
next
  case False
  with st have k: "k - 1 < length (peers c)"
    and c': "c' = c \<lparr>peers := (peers c)
                     [k - 1 := (peers c ! (k - 1))
                        \<lparr>peer_node := retire_item (peer_node (peers c ! (k - 1)))\<rparr>]\<rparr>"
    by (auto simp: retire_def split: if_splits)
  from inv k have ok: "peer_ok j (peers c ! (k - 1))" and all: "\<forall>p \<in> set (peers c). peer_ok j p"
    by (simp_all add: gate_inv_def)
  from ok retire_item_ok [of j "peer_node (peers c ! (k - 1))"]
  have "peer_ok j ((peers c ! (k - 1)) \<lparr>peer_node := retire_item (peer_node (peers c ! (k - 1)))\<rparr>)"
    by (simp add: peer_ok_def)
  from peers_ok_update [OF all this] inv show ?thesis by (simp add: c' gate_inv_def)
qed

lemma gate_inv_step:
  assumes "gate_inv j c" "0 \<le> threshold j" "threshold j < 2 ^ 31" "step j e c = Some c'"
  shows "gate_inv j c'"
  using assms
  by (cases e)
     (auto intro: gate_inv_master_step gate_inv_worker_step gate_inv_exchange gate_inv_retire)

lemma gate_inv_run:
  assumes "0 \<le> threshold j" "threshold j < 2 ^ 31"
  shows "gate_inv j c \<Longrightarrow> run j es c = Some c' \<Longrightarrow> gate_inv j c'"
proof (induction es arbitrary: c)
  case Nil
  then show ?case by simp
next
  case (Cons e es)
  from Cons.prems(2) obtain c1 where s: "step j e c = Some c1" and r: "run j es c1 = Some c'"
    by (auto split: option.splits)
  from Cons.IH [OF gate_inv_step [OF Cons.prems(1) assms s] r] show ?case .
qed

lemma nodes_nth_peer:
  "w < length (peers c) \<Longrightarrow> nodes c ! Suc w = peer_node (peers c ! w)"
  by (simp add: nodes_def)

lemma nodes_peers_update:
  assumes "master_node c' = master_node c" "peers c' = (peers c) [w := q]" "k < length (nodes c)"
    and "load_work (nodes c' ! k) \<noteq> load_work (nodes c ! k)"
  shows "k = Suc w \<and> w < length (peers c) \<and> nodes c' ! k = peer_node q \<and>
         nodes c ! k = peer_node (peers c ! w)"
proof (cases k)
  case 0
  with assms show ?thesis by (simp add: nodes_def)
next
  case (Suc k')
  with assms(3) have k': "k' < length (peers c)" by (simp add: nodes_def)
  with assms(2,4) Suc have "k' = w"
    by (cases "k' = w") (simp_all add: nodes_def)
  with assms(2) Suc k' show ?thesis by (simp add: nodes_def)
qed

lemma step_accepts:
  assumes inv: "gate_inv j c" and st: "step j e c = Some c'" and k: "k < length (nodes c)"
    and ch: "load_work (nodes c' ! k) \<noteq> load_work (nodes c ! k)"
  shows "accepts j (nodes c ! k) (nodes c' ! k)"
proof (cases e)
  case MasterStep
  with st have ms: "master_step j c = Some c'" by simp
  then have p: "peers c' = peers c"
    by (cases "master_at c") (auto simp: master_step_def split: if_splits)
  with ch k have k0: "k = 0" by (cases k) (simp_all add: nodes_def)
  with ch have lw: "load_work (master_node c') \<noteq> load_work (master_node c)"
    by (simp add: nodes_def)
  with ms have "master_at c = MDecided" "local_work (master_node c) < threshold j"
      "master_node c' = accept_item (next_work_item_to_allocate c) (master_node c)"
    by (cases "master_at c"; auto simp: master_step_def read_local_work_def split: if_splits)+
  with inv k0 show ?thesis
    by (auto simp: accepts_def gate_inv_def decided_ok_def nodes_def accept_item_def)
next
  case (WorkerStep w)
  with st have ws: "worker_step j w c = Some c'" by simp
  then have w: "w < length (peers c)" by (auto simp: worker_step_def split: if_splits)
  from ws w obtain q where m: "master_node c' = master_node c"
    and p: "peers c' = (peers c) [w := q]"
    and q: "load_work (peer_node q) = load_work (peer_node (peers c ! w))"
    by (cases "peer_pc (peers c ! w)")
       (auto simp: worker_step_def Let_def read_local_work_def split: if_splits)
  from nodes_peers_update [OF m p k ch] q ch show ?thesis by metis
next
  case (Exchange w)
  with st have ex: "exchange j w c = Some c'" by simp
  from exchange_peers [OF ex] obtain v where
    w: "w < length (peers c)" "waiting j (peers c ! w)"
    and m: "master_node c' = master_node c"
    and p: "peers c' = (peers c) [w := receive_reply v (peers c ! w)]" by blast
  from nodes_peers_update [OF m p k ch] have
    n': "nodes c' ! k = peer_node (receive_reply v (peers c ! w))"
    and n: "nodes c ! k = peer_node (peers c ! w)" by blast+
  from inv w have ok: "peer_ok j (peers c ! w)" by (simp add: gate_inv_def)
  from ch n n' have "v \<noteq> - 1" by (auto simp: receive_reply_def)
  with ok w(2) show ?thesis
    unfolding n n'
    by (auto simp: accepts_def receive_reply_def accept_item_def peer_ok_def waiting_def
          decided_ok_def)
next
  case (Retire i)
  with st have rt: "retire i c = Some c'" by simp
  show ?thesis
  proof (cases "i = 0")
    case True
    with rt have "peers c' = peers c" "load_work (master_node c') = load_work (master_node c)"
      by (auto simp: retire_def retire_item_def)
    with ch k show ?thesis by (cases k) (simp_all add: nodes_def)
  next
    case False
    with rt obtain q where m: "master_node c' = master_node c"
      and p: "peers c' = (peers c) [i - 1 := q]"
      and q: "load_work (peer_node q) = load_work (peer_node (peers c ! (i - 1)))"
      by (auto simp: retire_def retire_item_def split: if_splits)
    from nodes_peers_update [OF m p k ch] q ch show ?thesis by metis
  qed
qed

text \<open>
  Claim C7. Let the threshold \<open>PUS_PER_NODE * TASKS_IN_QUEUE_PER_PU\<close> be a non-negative
  \<open>i32\<close> value. In every state the cluster reaches, on every node
  \<open>accepted_items - retired_items\<close> is at most the threshold; and every step that pushes
  a work item to a node's load queue is taken when \<open>accepted_items - retired_items\<close> of
  that node is less than the threshold, and increments \<open>accepted_items\<close> by one.
\<close>

theorem intake_gate:
  assumes t: "0 \<le> threshold j" "threshold j < 2 ^ 31"
    and r: "run j es (initial_cluster j) = Some c"
  shows "(\<forall>nd \<in> set (nodes c). accepted_items nd - retired_items nd \<le> threshold j) \<and>
         (\<forall>e c' k. step j e c = Some c' \<longrightarrow> k < length (nodes c) \<longrightarrow>
            load_work (nodes c' ! k) \<noteq> load_work (nodes c ! k) \<longrightarrow>
              accepted_items (nodes c ! k) - retired_items (nodes c ! k) < threshold j \<and>
              accepted_items (nodes c' ! k) = accepted_items (nodes c ! k) + 1 \<and>
              (\<exists>idx. load_work (nodes c' ! k) = load_work (nodes c ! k) @ [idx]))"
proof -
  from gate_inv_run [OF t gate_inv_initial [OF t(1)] r] have inv: "gate_inv j c" .
  then have "\<forall>nd \<in> set (nodes c). accepted_items nd - retired_items nd \<le> threshold j"
    by (auto simp: gate_inv_def nodes_def node_ok_def peer_ok_def)
  moreover have "\<forall>e c' k. step j e c = Some c' \<longrightarrow> k < length (nodes c) \<longrightarrow>
            load_work (nodes c' ! k) \<noteq> load_work (nodes c ! k) \<longrightarrow>
              accepted_items (nodes c ! k) - retired_items (nodes c ! k) < threshold j \<and>
              accepted_items (nodes c' ! k) = accepted_items (nodes c ! k) + 1 \<and>
              (\<exists>idx. load_work (nodes c' ! k) = load_work (nodes c ! k) @ [idx])"
    using step_accepts [OF inv] unfolding accepts_def by blast
  ultimately show ?thesis by blast
qed

theorem intake_gate_witness:
  "\<exists>c. run two_node_job two_node_prefix (initial_cluster two_node_job) = Some c \<and>
       (\<forall>nd \<in> set (nodes c). accepted_items nd - retired_items nd \<le> threshold two_node_job) \<and>
         (\<forall>e c' k. step two_node_job e c = Some c' \<longrightarrow> k < length (nodes c) \<longrightarrow>
            load_work (nodes c' ! k) \<noteq> load_work (nodes c ! k) \<longrightarrow>
              accepted_items (nodes c ! k) - retired_items (nodes c ! k) < threshold two_node_job \<and>
              accepted_items (nodes c' ! k) = accepted_items (nodes c ! k) + 1 \<and>
              (\<exists>idx. load_work (nodes c' ! k) = load_work (nodes c ! k) @ [idx]))"
proof -
  have "run two_node_job two_node_prefix (initial_cluster two_node_job) \<noteq> None"
    by code_simp
  then obtain c where
    r: "run two_node_job two_node_prefix (initial_cluster two_node_job) = Some c" by blast
  have t: "0 \<le> threshold two_node_job" "threshold two_node_job < 2 ^ 31"
    by (simp_all add: two_node_job_def)
  show ?thesis
    by (rule exI [of _ c], rule conjI [OF r intake_gate [OF t r]])
qed

section \<open>The master-worker protocol\<close>

lemma count_update_new:
  "w < length fs \<Longrightarrow> \<not> fs ! w \<Longrightarrow>
     length (filter (\<lambda>b. b) (fs [w := True])) = Suc (length (filter (\<lambda>b. b) fs))"
proof (induction fs arbitrary: w)
  case Nil
  then show ?case by simp
next
  case (Cons p ps)
  then show ?case by (cases w) auto
qed

lemma count_all:
  "length (filter (\<lambda>b. b) fs) = length fs \<longleftrightarrow> (\<forall>b \<in> set fs. b)"
proof
  assume "length (filter (\<lambda>b. b) fs) = length fs"
  with sum_length_filter_compl [of "\<lambda>b. b" fs] have "filter (\<lambda>b. \<not> b) fs = []"
    by simp
  then show "\<forall>b \<in> set fs. b" by (simp add: filter_empty_conv)
next
  assume "\<forall>b \<in> set fs. b"
  then show "length (filter (\<lambda>b. b) fs) = length fs" by simp
qed

lemma done_flags_update:
  "done_flags (c \<lparr>peers := (peers c) [w := q]\<rparr>) = (done_flags c) [w := finished q]"
  by (simp add: done_flags_def map_update)

lemma done_flags_same:
  assumes "w < length (peers c)" "finished q = finished (peers c ! w)"
  shows "done_flags (c \<lparr>peers := (peers c) [w := q]\<rparr>) = done_flags c"
proof -
  from assms have "(done_flags c) [w := finished q] = done_flags c"
    by (simp add: done_flags_def list_update_same_conv)
  then show ?thesis by (simp add: done_flags_update)
qed

lemma protocol_inv_cong:
  assumes "master_at c' = master_at c"
    "next_work_item_to_allocate c' = next_work_item_to_allocate c"
    "workers_done c' = workers_done c" "replies c' = replies c"
    "done_flags c' = done_flags c"
  shows "protocol_inv j c' = protocol_inv j c"
  by (simp add: protocol_inv_def assms)

lemma protocol_inv_initial: "protocol_inv j (initial_cluster j)"
  by (simp add: protocol_inv_def initial_cluster_def finished_def done_flags_def)

lemma protocol_inv_master_step:
  assumes inv: "protocol_inv j c" and st: "master_step j c = Some c'"
  shows "protocol_inv j c'"
proof (cases "master_at c")
  case MLoop
  show ?thesis
  proof (cases "next_work_item_to_allocate c < num_items j")
    case True
    with st MLoop have c': "c' = c \<lparr>master_node := read_local_work (master_node c),
                                 master_at := MDecided\<rparr>"
      by (simp add: master_step_def)
    have "done_flags c' = done_flags c" by (simp add: c' done_flags_def)
    with inv MLoop True show ?thesis by (simp add: protocol_inv_def c')
  next
    case False
    with st MLoop have c': "c' = c \<lparr>workers_done := 1, master_at := MDrain\<rparr>"
      by (simp add: master_step_def)
    from inv MLoop have "True \<notin> set (done_flags c)" by (simp add: protocol_inv_def)
    then have "filter (\<lambda>b. b) (done_flags c) = []" by (auto simp: filter_empty_conv)
    moreover have "done_flags c' = done_flags c" by (simp add: c' done_flags_def)
    ultimately show ?thesis using inv MLoop False by (simp add: protocol_inv_def c')
  qed
next
  case MDecided
  from st have "done_flags c' = done_flags c"
    by (auto simp: master_step_def MDecided done_flags_def split: if_splits)
  with MDecided st inv show ?thesis
    by (auto simp: master_step_def protocol_inv_def split: if_splits)
next
  case MDrain
  from st have "done_flags c' = done_flags c"
    by (auto simp: master_step_def MDrain done_flags_def split: if_splits)
  with MDrain st inv show ?thesis
    by (auto simp: master_step_def protocol_inv_def split: if_splits)
next
  case MExit
  with st show ?thesis by (simp add: master_step_def)
qed

lemma protocol_inv_worker_step:
  assumes inv: "protocol_inv j c" and st: "worker_step j w c = Some c'"
  shows "protocol_inv j c'"
proof -
  from st have w: "w < length (peers c)" by (auto simp: worker_step_def split: if_splits)
  have "\<exists>q. finished q = finished (peers c ! w) \<and> c' = c \<lparr>peers := (peers c) [w := q]\<rparr>"
  proof (cases "peer_pc (peers c ! w)")
    case WLoop
    with st w show ?thesis
      by (intro exI [of _ "\<lparr>peer_node = read_local_work (peer_node (peers c ! w)),
                            peer_pc = WDecided\<rparr>"])
         (simp add: worker_step_def Let_def finished_def)
  next
    case WDecided
    with st w show ?thesis
      by (intro exI [of _ "(peers c ! w) \<lparr>peer_pc := WLoop\<rparr>"])
         (auto simp: worker_step_def Let_def finished_def split: if_splits)
  next
    case WDone
    with st w show ?thesis by (simp add: worker_step_def Let_def)
  qed
  then obtain q where q: "finished q = finished (peers c ! w)"
    and c': "c' = c \<lparr>peers := (peers c) [w := q]\<rparr>" by blast
  have "done_flags c' = done_flags c" unfolding c' by (rule done_flags_same [OF w q])
  then have "protocol_inv j c' = protocol_inv j c"
    by (rule protocol_inv_cong [rotated 4]) (simp_all add: c')
  with inv show ?thesis by simp
qed

lemma protocol_inv_retire:
  assumes inv: "protocol_inv j c" and st: "retire k c = Some c'"
  shows "protocol_inv j c'"
proof (cases "k = 0")
  case True
  with st have "protocol_inv j c' = protocol_inv j c"
    by (intro protocol_inv_cong) (auto simp: retire_def done_flags_def)
  with inv show ?thesis by simp
next
  case False
  let ?q = "(peers c ! (k - 1)) \<lparr>peer_node := retire_item (peer_node (peers c ! (k - 1)))\<rparr>"
  from False st have k: "k - 1 < length (peers c)"
    and c': "c' = c \<lparr>peers := (peers c) [k - 1 := ?q]\<rparr>"
    by (auto simp: retire_def split: if_splits)
  have q: "finished ?q = finished (peers c ! (k - 1))" by (simp add: finished_def)
  have "done_flags c' = done_flags c" unfolding c' by (rule done_flags_same [OF k q])
  then have "protocol_inv j c' = protocol_inv j c"
    by (rule protocol_inv_cong [rotated 4]) (simp_all add: c')
  with inv show ?thesis by simp
qed

lemma protocol_inv_exchange:
  assumes inv: "protocol_inv j c" and st: "exchange j w c = Some c'"
  shows "protocol_inv j c'"
proof -
  from exchange_peers [OF st] obtain v where
    w: "w < length (peers c)" "waiting j (peers c ! w)"
    and p: "peers c' = (peers c) [w := receive_reply v (peers c ! w)]"
    and r: "replies c' = replies c @ [(w, v)]"
    and mode: "master_at c = MDecided \<and> v = next_work_item_to_allocate c \<and>
               next_work_item_to_allocate c' = v + 1 \<and> master_at c' = MLoop \<and>
               workers_done c' = workers_done c \<and> 1 < num_nodes j
               \<or> master_at c = MDrain \<and> v = - 1 \<and> master_at c' = MDrain \<and>
                 next_work_item_to_allocate c' = next_work_item_to_allocate c \<and>
                 workers_done c' = workers_done c + 1 \<and> workers_done c < num_nodes j"
    by blast
  from w(2) have nf: "\<not> finished (peers c ! w)" by (simp add: waiting_def finished_def)
  have flags: "done_flags c' = (done_flags c) [w := finished (receive_reply v (peers c ! w))]"
    by (simp add: done_flags_def p map_update)
  from w(1) have wl: "w < length (done_flags c)" by (simp add: done_flags_def)
  from nf w(1) have old: "\<not> done_flags c ! w" by (simp add: done_flags_def)
  from mode show ?thesis
  proof
    assume m: "master_at c = MDecided \<and> v = next_work_item_to_allocate c \<and>
               next_work_item_to_allocate c' = v + 1 \<and> master_at c' = MLoop \<and>
               workers_done c' = workers_done c \<and> 1 < num_nodes j"
    with inv have v: "0 \<le> v" by (simp add: protocol_inv_def)
    then have "\<not> finished (receive_reply v (peers c ! w))"
      by (auto simp: receive_reply_def finished_def)
    with flags old wl have same: "done_flags c' = done_flags c"
      by (simp add: list_update_same_conv)
    from v have "\<And>i. (i, - 1) \<in> set (replies c') \<longleftrightarrow> (i, - 1) \<in> set (replies c)"
      by (auto simp: r)
    with inv m v same show ?thesis by (simp add: protocol_inv_def)
  next
    assume m: "master_at c = MDrain \<and> v = - 1 \<and> master_at c' = MDrain \<and>
                 next_work_item_to_allocate c' = next_work_item_to_allocate c \<and>
                 workers_done c' = workers_done c + 1 \<and> workers_done c < num_nodes j"
    then have "finished (receive_reply v (peers c ! w))"
      by (simp add: receive_reply_def finished_def)
    with flags have upd: "done_flags c' = (done_flags c) [w := True]" by simp
    have cnt: "length (filter (\<lambda>b. b) (done_flags c')) =
               Suc (length (filter (\<lambda>b. b) (done_flags c)))"
      unfolding upd by (rule count_update_new [OF wl old])
    have mem: "\<And>i. i < length (done_flags c) \<Longrightarrow>
                 done_flags c' ! i \<longleftrightarrow> (i, - 1) \<in> set (replies c')"
    proof -
      fix i assume i: "i < length (done_flags c)"
      from inv i have "done_flags c ! i \<longleftrightarrow> (i, - 1) \<in> set (replies c)"
        by (simp add: protocol_inv_def)
      with i m show "done_flags c' ! i \<longleftrightarrow> (i, - 1) \<in> set (replies c')"
        by (cases "i = w") (auto simp: upd r)
    qed
    have len: "length (done_flags c') = length (done_flags c)" by (simp add: upd)
    from inv m show ?thesis
      unfolding protocol_inv_def len cnt using mem by simp
  qed
qed

lemma protocol_inv_step:
  assumes "protocol_inv j c" "step j e c = Some c'"
  shows "protocol_inv j c'"
  using assms
  by (cases e)
     (auto intro: protocol_inv_master_step protocol_inv_worker_step protocol_inv_exchange
                  protocol_inv_retire)

lemma protocol_inv_run:
  "protocol_inv j c \<Longrightarrow> run j es c = Some c' \<Longrightarrow> protocol_inv j c'"
proof (induction es arbitrary: c)
  case Nil
  then show ?case by simp
next
  case (Cons e es)
  from Cons.prems(2) obtain c1 where s: "step j e c = Some c1" and r: "run j es c1 = Some c'"
    by (auto split: option.splits)
  from Cons.IH [OF protocol_inv_step [OF Cons.prems(1) s] r] show ?case .
qed

lemma exit_iff_all_finished:
  assumes inv: "protocol_inv j c" and n1: "1 \<le> num_nodes j"
  shows "(\<exists>c'. master_step j c = Some c' \<and> master_at c' = MExit) \<longleftrightarrow>
         (master_at c = MDrain \<and> (\<forall>p \<in> set (peers c). peer_pc p = WDone))"
proof -
  let ?cnt = "length (filter (\<lambda>b. b) (done_flags c))"
  have all: "(\<forall>b \<in> set (done_flags c). b) \<longleftrightarrow> (\<forall>p \<in> set (peers c). peer_pc p = WDone)"
    by (simp add: done_flags_def finished_def)
  have le: "?cnt \<le> length (done_flags c)" by simp
  from inv n1 have nn: "num_nodes j = 1 + int (length (done_flags c))"
    by (simp add: protocol_inv_def)
  show ?thesis
  proof (cases "master_at c = MDrain")
    case False
    then show ?thesis
      by (cases "master_at c") (auto simp: master_step_def split: if_splits)
  next
    case True
    with inv have wd: "workers_done c = 1 + int ?cnt" by (simp add: protocol_inv_def)
    have "(\<exists>c'. master_step j c = Some c' \<and> master_at c' = MExit) \<longleftrightarrow>
            \<not> workers_done c < num_nodes j"
      using True by (auto simp: master_step_def)
    also have "\<dots> \<longleftrightarrow> ?cnt = length (done_flags c)" using wd nn le by linarith
    also have "\<dots> \<longleftrightarrow> (\<forall>b \<in> set (done_flags c). b)" by (rule count_all)
    finally show ?thesis using True all by simp
  qed
qed

lemma exchange_reply:
  assumes inv: "protocol_inv j c" and st: "exchange j w c = Some c'"
  shows "\<exists>v. replies c' = replies c @ [(w, v)] \<and>
             peers c' = (peers c) [w := receive_reply v (peers c ! w)] \<and>
             (num_items j \<le> next_work_item_to_allocate c \<longrightarrow> v = - 1) \<and>
             (v = - 1 \<longrightarrow> peer_pc (peers c' ! w) = WDone \<and>
                          peer_node (peers c' ! w) = peer_node (peers c ! w)) \<and>
             (v \<noteq> - 1 \<longrightarrow> 0 \<le> v \<and> v < num_items j \<and> peer_pc (peers c' ! w) = WLoop \<and>
                load_work (peer_node (peers c' ! w)) =
                  load_work (peer_node (peers c ! w)) @ [v])"
proof -
  from exchange_peers [OF st] obtain v where
    w: "w < length (peers c)"
    and p: "peers c' = (peers c) [w := receive_reply v (peers c ! w)]"
    and r: "replies c' = replies c @ [(w, v)]"
    and mode: "master_at c = MDecided \<and> v = next_work_item_to_allocate c
               \<or> master_at c = MDrain \<and> v = - 1"
    by blast
  from mode inv have v: "v = - 1 \<or> 0 \<le> v \<and> v < num_items j"
    and late: "num_items j \<le> next_work_item_to_allocate c \<longrightarrow> v = - 1"
    by (auto simp: protocol_inv_def)
  from w p have nth: "peers c' ! w = receive_reply v (peers c ! w)" by simp
  show ?thesis
    apply (rule exI [of _ v])
    using r p late v unfolding nth
    apply (auto simp: receive_reply_def accept_item_def)
    done
qed

text \<open>
  Claim C8. In every state the cluster reaches: a peer has left its loop exactly when
  the master has replied \<open>-1\<close> to it; the reply to a request is \<open>-1\<close> once every planned
  index has been issued; a peer that receives \<open>-1\<close> leaves its loop without accepting
  anything, and any other reply is a planned index that the peer pushes to its load
  queue; the master can leave its second loop exactly when it is in that loop and all
  \<open>num_nodes - 1\<close> peers have received \<open>-1\<close>; and a peer that has left its loop neither
  runs nor requests again.
\<close>

theorem master_worker_protocol:
  assumes n1: "1 \<le> num_nodes j" and r: "run j es (initial_cluster j) = Some c"
  shows "length (peers c) = nat (num_nodes j - 1) \<and>
         (\<forall>w < length (peers c).
            peer_pc (peers c ! w) = WDone \<longleftrightarrow> (w, - 1) \<in> set (replies c)) \<and>
         (\<forall>w c'. exchange j w c = Some c' \<longrightarrow>
            (\<exists>v. replies c' = replies c @ [(w, v)] \<and>
                 peers c' = (peers c) [w := receive_reply v (peers c ! w)] \<and>
                 (num_items j \<le> next_work_item_to_allocate c \<longrightarrow> v = - 1) \<and>
                 (v = - 1 \<longrightarrow> peer_pc (peers c' ! w) = WDone \<and>
                              peer_node (peers c' ! w) = peer_node (peers c ! w)) \<and>
                 (v \<noteq> - 1 \<longrightarrow> 0 \<le> v \<and> v < num_items j \<and> peer_pc (peers c' ! w) = WLoop \<and>
                    load_work (peer_node (peers c' ! w)) =
                      load_work (peer_node (peers c ! w)) @ [v]))) \<and>
         ((\<exists>c'. master_step j c = Some c' \<and> master_at c' = MExit) \<longleftrightarrow>
            (master_at c = MDrain \<and> (\<forall>p \<in> set (peers c). peer_pc p = WDone))) \<and>
         (\<forall>w < length (peers c). peer_pc (peers c ! w) = WDone \<longrightarrow>
            worker_step j w c = None \<and> exchange j w c = None)"
proof -
  from protocol_inv_run [OF protocol_inv_initial r] have inv: "protocol_inv j c" .
  have 1: "length (peers c) = nat (num_nodes j - 1)"
    using inv by (simp add: protocol_inv_def done_flags_def)
  have 2: "\<forall>w < length (peers c).
            peer_pc (peers c ! w) = WDone \<longleftrightarrow> (w, - 1) \<in> set (replies c)"
    using inv by (simp add: protocol_inv_def done_flags_def finished_def)
  have 3: "\<forall>w c'. exchange j w c = Some c' \<longrightarrow>
            (\<exists>v. replies c' = replies c @ [(w, v)] \<and>
                 peers c' = (peers c) [w := receive_reply v (peers c ! w)] \<and>
                 (num_items j \<le> next_work_item_to_allocate c \<longrightarrow> v = - 1) \<and>
                 (v = - 1 \<longrightarrow> peer_pc (peers c' ! w) = WDone \<and>
                              peer_node (peers c' ! w) = peer_node (peers c ! w)) \<and>
                 (v \<noteq> - 1 \<longrightarrow> 0 \<le> v \<and> v < num_items j \<and> peer_pc (peers c' ! w) = WLoop \<and>
                    load_work (peer_node (peers c' ! w)) =
                      load_work (peer_node (peers c ! w)) @ [v]))"
    using exchange_reply [OF inv] by blast
  have 4: "(\<exists>c'. master_step j c = Some c' \<and> master_at c' = MExit) \<longleftrightarrow>
            (master_at c = MDrain \<and> (\<forall>p \<in> set (peers c). peer_pc p = WDone))"
    by (rule exit_iff_all_finished [OF inv n1])
  have 5: "\<forall>w < length (peers c). peer_pc (peers c ! w) = WDone \<longrightarrow>
            worker_step j w c = None \<and> exchange j w c = None"
    by (simp add: worker_step_def exchange_def waiting_def Let_def)
  show ?thesis
    apply (intro conjI)
    apply (rule 1)
    apply (rule 2)
    apply (rule 3)
    apply (rule 4)
    apply (rule 5)
    done
qed

theorem master_worker_protocol_witness:
  "\<exists>c. run two_node_job two_node_drained (initial_cluster two_node_job) = Some c \<and>
       length (peers c) = nat (num_nodes two_node_job - 1) \<and>
         (\<forall>w < length (peers c).
            peer_pc (peers c ! w) = WDone \<longleftrightarrow> (w, - 1) \<in> set (replies c)) \<and>
         (\<forall>w c'. exchange two_node_job w c = Some c' \<longrightarrow>
            (\<exists>v. replies c' = replies c @ [(w, v)] \<and>
                 peers c' = (peers c) [w := receive_reply v (peers c ! w)] \<and>
                 (num_items two_node_job \<le> next_work_item_to_allocate c \<longrightarrow> v = - 1) \<and>
                 (v = - 1 \<longrightarrow> peer_pc (peers c' ! w) = WDone \<and>
                              peer_node (peers c' ! w) = peer_node (peers c ! w)) \<and>
                 (v \<noteq> - 1 \<longrightarrow> 0 \<le> v \<and> v < num_items two_node_job \<and> peer_pc (peers c' ! w) = WLoop \<and>
                    load_work (peer_node (peers c' ! w)) =
                      load_work (peer_node (peers c ! w)) @ [v]))) \<and>
         ((\<exists>c'. master_step two_node_job c = Some c' \<and> master_at c' = MExit) \<longleftrightarrow>
            (master_at c = MDrain \<and> (\<forall>p \<in> set (peers c). peer_pc p = WDone))) \<and>
         (\<forall>w < length (peers c). peer_pc (peers c ! w) = WDone \<longrightarrow>
            worker_step two_node_job w c = None \<and> exchange two_node_job w c = None)"
proof -
  have "run two_node_job two_node_drained (initial_cluster two_node_job) \<noteq> None"
    by code_simp
  then obtain c where
    r: "run two_node_job two_node_drained (initial_cluster two_node_job) = Some c" by blast
  have n1: "1 \<le> num_nodes two_node_job" by (simp add: two_node_job_def)
  show ?thesis
    by (rule exI [of _ c], rule conjI [OF r master_worker_protocol [OF n1 r]])
qed

lemma two_node_run:
  "run two_node_job two_node_schedule (initial_cluster two_node_job) =
     Some \<lparr>master_node = \<lparr>accepted_items = 2, retired_items = 1, local_work = 2,
                            load_work = [0, 1]\<rparr>,
           master_at = MExit, next_work_item_to_allocate = 3, workers_done = 2,
           peers = [\<lparr>peer_node = \<lparr>accepted_items = 1, retired_items = 0, local_work = 1,
                                    load_work = [2]\<rparr>,
                     peer_pc = WDone\<rparr>],
           replies = [(0, 2), (0, - 1)]\<rparr>"
  by code_simp

lemma two_node_blocked:
  "run two_node_job (two_node_prefix @ [MasterStep]) (initial_cluster two_node_job) = None"
  by code_simp

end
